theory Spec2Isabelle
  imports Complex_Main
begin

section \<open>JavaScript strings\<close>

text \<open>
  A JavaScript string is a sequence of UTF-16 code units; \<open>length\<close>, \<open>slice\<close> and
  \<open>trim\<close> count code units. A code unit is modelled as a natural number, so that the
  ellipsis U+2026 appended by \<open>elideText\<close> and the white space above U+00FF are single
  elements, as they are in the source. \<open>lit\<close> turns an ASCII literal into code units.
\<close>

type_synonym jsstring = "nat list"

definition lit :: "string \<Rightarrow> jsstring" where
  "lit s = map of_char s"

text \<open>The class \<open>\s\<close> of a JavaScript regular expression, which is also what
  \<open>String.prototype.trim\<close> strips: WhiteSpace and LineTerminator.\<close>

definition isWhitespace :: "nat \<Rightarrow> bool" where
  "isWhitespace c =
     (c = 9 \<or> c = 10 \<or> c = 11 \<or> c = 12 \<or> c = 13 \<or> c = 32 \<or> c = 160 \<or> c = 5760
      \<or> (8192 \<le> c \<and> c \<le> 8202) \<or> c = 8232 \<or> c = 8233 \<or> c = 8239 \<or> c = 8287
      \<or> c = 12288 \<or> c = 65279)"

definition trimStart :: "jsstring \<Rightarrow> jsstring" where
  "trimStart s = dropWhile isWhitespace s"

definition trimEnd :: "jsstring \<Rightarrow> jsstring" where
  "trimEnd s = rev (dropWhile isWhitespace (rev s))"

definition trim :: "jsstring \<Rightarrow> jsstring" where
  "trim s = trimEnd (trimStart s)"

text \<open>\<open>text.replace(/\s+/g, " ")\<close>: every maximal run of white space becomes one space.
  The flag says whether the previous code unit was white space.\<close>

fun collapseFrom :: "bool \<Rightarrow> jsstring \<Rightarrow> jsstring" where
  "collapseFrom inRun [] = []"
| "collapseFrom inRun (c # cs) =
     (if isWhitespace c
      then (if inRun then collapseFrom True cs else 32 # collapseFrom True cs)
      else c # collapseFrom False cs)"

definition collapseWhitespace :: "jsstring \<Rightarrow> jsstring" where
  "collapseWhitespace s = collapseFrom False s"

text \<open>\<open>Array.prototype.join\<close>.\<close>

fun joinWith :: "jsstring \<Rightarrow> jsstring list \<Rightarrow> jsstring" where
  "joinWith sep [] = []"
| "joinWith sep [x] = x"
| "joinWith sep (x # y # ys) = x @ sep @ joinWith sep (y # ys)"

text \<open>\<open>String(n)\<close> for an integral number.\<close>

fun showNat :: "nat \<Rightarrow> jsstring" where
  "showNat n = (if n < 10 then [48 + n] else showNat (n div 10) @ [48 + n mod 10])"

declare showNat.simps [simp del]

definition showInt :: "int \<Rightarrow> jsstring" where
  "showInt i = (if i < 0 then 45 # showNat (nat (- i)) else showNat (nat i))"

text \<open>Truthiness of an optional string: \<open>undefined\<close> and \<open>""\<close> are falsy.\<close>

definition truthy :: "jsstring option \<Rightarrow> bool" where
  "truthy v = (case v of None \<Rightarrow> False | Some s \<Rightarrow> s \<noteq> [])"

section \<open>The follow-up queue\<close>

datatype QueueMode = Steer | Followup | Collect | SteerBacklog | Interrupt | Queue

datatype QueueDropPolicy = DropOld | DropNew | Summarize

datatype QueueDedupeMode = DedupeMessageId | DedupePrompt | DedupeNone

text \<open>\<open>QueueSettings\<close>. The optional numbers are rationals: \<open>getFollowupQueue\<close> floors
  the cap. (\<open>NaN\<close> and the infinities are not modelled.)\<close>

record QueueSettings =
  s_mode :: QueueMode
  s_debounceMs :: "rat option"
  s_cap :: "rat option"
  s_dropPolicy :: "QueueDropPolicy option"

text \<open>\<open>FollowupRun\<close>. The run parameters (\<open>run\<close>) are opaque to the queue: the type
  variable \<open>'r\<close>. A thread id is an integral number.\<close>

record 'r FollowupRun =
  prompt :: jsstring
  messageId :: "jsstring option"
  summaryLine :: "jsstring option"
  enqueuedAt :: int
  originatingChannel :: "jsstring option"
  originatingTo :: "jsstring option"
  originatingAccountId :: "jsstring option"
  originatingThreadId :: "int option"
  run :: 'r

record 'r FollowupQueueState =
  items :: "'r FollowupRun list"
  draining :: bool
  lastEnqueuedAt :: int
  mode :: QueueMode
  debounceMs :: rat
  cap :: int
  dropPolicy :: QueueDropPolicy
  droppedCount :: nat
  summaryLines :: "jsstring list"
  lastRun :: "'r option"

definition DEFAULT_QUEUE_DEBOUNCE_MS :: rat where
  "DEFAULT_QUEUE_DEBOUNCE_MS = 1000"

definition DEFAULT_QUEUE_CAP :: int where
  "DEFAULT_QUEUE_CAP = 20"

definition DEFAULT_QUEUE_DROP :: QueueDropPolicy where
  "DEFAULT_QUEUE_DROP = Summarize"

text \<open>\<open>FOLLOWUP_QUEUES\<close>, the process-wide registry: session key to queue state.\<close>

type_synonym 'r registry = "jsstring \<rightharpoonup> 'r FollowupQueueState"

subsection \<open>Summary lines\<close>

definition elideText :: "jsstring \<Rightarrow> nat \<Rightarrow> jsstring" where
  "elideText txt limit =
     (if length txt \<le> limit then txt
      else trimEnd (take (max 0 (limit - 1)) txt) @ [8230])"

definition buildQueueSummaryLine :: "'r FollowupRun \<Rightarrow> jsstring" where
  "buildQueueSummaryLine r =
     (let base = (case map_option trim (summaryLine r) of
                    Some s \<Rightarrow> (if s \<noteq> [] then s else trim (prompt r))
                  | None \<Rightarrow> trim (prompt r));
          cleaned = trim (collapseWhitespace base)
      in elideText cleaned 160)"

subsection \<open>getFollowupQueue\<close>

text \<open>The queue for a key, created on first use; an existing queue takes the mode and
  every setting that is given. The source mutates the registered object and returns it:
  the model returns the updated state, which the caller writes back under the key.\<close>

definition getFollowupQueue ::
  "jsstring \<Rightarrow> QueueSettings \<Rightarrow> 'r registry \<Rightarrow> 'r FollowupQueueState" where
  "getFollowupQueue key settings Q =
     (case Q key of
        Some existing \<Rightarrow>
          existing\<lparr>
            mode := s_mode settings,
            debounceMs := (case s_debounceMs settings of
                             Some d \<Rightarrow> max 0 d | None \<Rightarrow> debounceMs existing),
            cap := (case s_cap settings of
                      Some c \<Rightarrow> (if c > 0 then \<lfloor>c\<rfloor> else cap existing)
                    | None \<Rightarrow> cap existing),
            dropPolicy := (case s_dropPolicy settings of
                             Some p \<Rightarrow> p | None \<Rightarrow> dropPolicy existing)\<rparr>
      | None \<Rightarrow>
          \<lparr> items = [], draining = False, lastEnqueuedAt = 0,
            mode = s_mode settings,
            debounceMs = (case s_debounceMs settings of
                            Some d \<Rightarrow> max 0 d | None \<Rightarrow> DEFAULT_QUEUE_DEBOUNCE_MS),
            cap = (case s_cap settings of
                     Some c \<Rightarrow> (if c > 0 then \<lfloor>c\<rfloor> else DEFAULT_QUEUE_CAP)
                   | None \<Rightarrow> DEFAULT_QUEUE_CAP),
            dropPolicy = (case s_dropPolicy settings of
                            Some p \<Rightarrow> p | None \<Rightarrow> DEFAULT_QUEUE_DROP),
            droppedCount = 0, summaryLines = [], lastRun = None \<rparr>)"

subsection \<open>De-duplication\<close>

definition hasSameRouting :: "'r FollowupRun \<Rightarrow> 'r FollowupRun \<Rightarrow> bool" where
  "hasSameRouting r item =
     (originatingChannel item = originatingChannel r \<and>
      originatingTo item = originatingTo r \<and>
      originatingAccountId item = originatingAccountId r \<and>
      originatingThreadId item = originatingThreadId r)"

definition isRunAlreadyQueued ::
  "'r FollowupRun \<Rightarrow> 'r FollowupQueueState \<Rightarrow> bool \<Rightarrow> bool" where
  "isRunAlreadyQueued r queue allowPromptFallback =
     (let mid = map_option trim (messageId r) in
      if truthy mid
      then list_ex (\<lambda>item. map_option trim (messageId item) = mid \<and> hasSameRouting r item)
             (items queue)
      else if \<not> allowPromptFallback then False
      else list_ex (\<lambda>item. prompt item = prompt r \<and> hasSameRouting r item) (items queue))"

subsection \<open>enqueueFollowupRun\<close>

text \<open>\<open>while (queue.summaryLines.length > cap) queue.summaryLines.shift()\<close>; the loop is
  reached with a positive cap only.\<close>

fun shiftWhileOver :: "int \<Rightarrow> 'a list \<Rightarrow> 'a list" where
  "shiftWhileOver c [] = []"
| "shiftWhileOver c (x # xs) =
     (if int (length (x # xs)) > c then shiftWhileOver c xs else x # xs)"

text \<open>The \<open>for\<close> loop over the dropped items under the \<open>summarize\<close> policy.\<close>

fun recordDropped ::
  "'r FollowupRun list \<Rightarrow> 'r FollowupQueueState \<Rightarrow> 'r FollowupQueueState" where
  "recordDropped [] q = q"
| "recordDropped (item # rest) q =
     recordDropped rest
       (q\<lparr>droppedCount := droppedCount q + 1,
          summaryLines := summaryLines q @ [buildQueueSummaryLine item]\<rparr>)"

text \<open>The de-duplication test at the head of \<open>enqueueFollowupRun\<close>.\<close>

definition isDeduplicated ::
  "QueueDedupeMode \<Rightarrow> 'r FollowupRun \<Rightarrow> 'r FollowupQueueState \<Rightarrow> bool" where
  "isDeduplicated dedupeMode r queue =
     (dedupeMode \<noteq> DedupeNone \<and>
      ((dedupeMode = DedupeMessageId \<and> isRunAlreadyQueued r queue False) \<or>
       (dedupeMode = DedupePrompt \<and> isRunAlreadyQueued r queue True)))"

text \<open>The result is the returned boolean and the registry after the call; \<open>now\<close> is
  the reading of \<open>Date.now()\<close>.\<close>

definition enqueueFollowupRun ::
  "int \<Rightarrow> jsstring \<Rightarrow> 'r FollowupRun \<Rightarrow> QueueSettings \<Rightarrow> QueueDedupeMode \<Rightarrow> 'r registry
     \<Rightarrow> bool \<times> 'r registry" where
  "enqueueFollowupRun now key r settings dedupeMode Q =
     (let queue = getFollowupQueue key settings Q in
      if isDeduplicated dedupeMode r queue then (False, Q(key \<mapsto> queue))
      else
        let queue1 = queue\<lparr>lastEnqueuedAt := now, lastRun := Some (run r)\<rparr> in
        if cap queue1 > 0 \<and> int (length (items queue1)) \<ge> cap queue1
        then
          if dropPolicy queue1 = DropNew then (False, Q(key \<mapsto> queue1))
          else
            let dropCount = nat (int (length (items queue1)) - cap queue1 + 1);
                dropped = take dropCount (items queue1);
                queue2 = queue1\<lparr>items := drop dropCount (items queue1)\<rparr>;
                queue3 = (if dropPolicy queue2 = Summarize
                          then (let q' = recordDropped dropped queue2
                                in q'\<lparr>summaryLines :=
                                        shiftWhileOver (cap queue1) (summaryLines q')\<rparr>)
                          else queue2)
            in (True, Q(key \<mapsto> queue3\<lparr>items := items queue3 @ [r]\<rparr>))
        else (True, Q(key \<mapsto> queue1\<lparr>items := items queue1 @ [r]\<rparr>)))"

subsection \<open>Prompts built by the drain\<close>

text \<open>\<open>buildSummaryPrompt\<close> returns the overflow summary, if one is pending under the
  \<open>summarize\<close> policy, and resets the counter and the recorded lines; otherwise it
  returns \<open>undefined\<close> and leaves the queue alone.\<close>

definition buildSummaryPrompt ::
  "'r FollowupQueueState \<Rightarrow> jsstring option \<times> 'r FollowupQueueState" where
  "buildSummaryPrompt queue =
     (if dropPolicy queue \<noteq> Summarize \<or> droppedCount queue \<le> 0 then (None, queue)
      else
        let lines0 = [lit ''[Queue overflow] Dropped '' @ showNat (droppedCount queue)
                      @ lit '' message'' @ (if droppedCount queue = 1 then [] else lit ''s'')
                      @ lit '' due to cap.''];
            lines1 = (if length (summaryLines queue) > 0
                      then lines0 @ [lit ''Summary:'']
                           @ map (\<lambda>line. lit ''- '' @ line) (summaryLines queue)
                      else lines0)
        in (Some (joinWith [10] lines1), queue\<lparr>droppedCount := 0, summaryLines := []\<rparr>))"

text \<open>The block of one collected item, \<open>idx\<close> counted from 0.\<close>

definition collectBlock :: "nat \<Rightarrow> 'r FollowupRun \<Rightarrow> jsstring" where
  "collectBlock idx item =
     trim (lit ''---'' @ [10] @ lit ''Queued #'' @ showNat (idx + 1) @ [10] @ prompt item)"

definition buildCollectPrompt :: "'r FollowupRun list \<Rightarrow> jsstring option \<Rightarrow> jsstring" where
  "buildCollectPrompt its summary =
     (let blocks0 = [lit ''[Queued messages while agent was busy]''];
          blocks1 = (if truthy summary then blocks0 @ [the summary] else blocks0)
      in joinWith [10, 10] (blocks1 @ map (\<lambda>(idx, item). collectBlock idx item) (enumerate 0 its)))"

subsection \<open>hasCrossChannelItems\<close>

text \<open>An item with no routing field at all is unkeyed.\<close>

definition isUnkeyed :: "'r FollowupRun \<Rightarrow> bool" where
  "isUnkeyed item =
     (\<not> truthy (originatingChannel item) \<and> \<not> truthy (originatingTo item) \<and>
      \<not> truthy (originatingAccountId item) \<and> originatingThreadId item = None)"

definition orEmpty :: "jsstring option \<Rightarrow> jsstring" where
  "orEmpty v = (case v of None \<Rightarrow> [] | Some s \<Rightarrow> s)"

text \<open>The key under which a routed item is counted:
  \<open>[channel, to, accountId || "", threadId].join("|")\<close>.\<close>

definition routeKey :: "'r FollowupRun \<Rightarrow> jsstring" where
  "routeKey item =
     joinWith [124]
       [orEmpty (originatingChannel item), orEmpty (originatingTo item),
        (if truthy (originatingAccountId item) then orEmpty (originatingAccountId item) else []),
        (case originatingThreadId item of Some t \<Rightarrow> showInt t | None \<Rightarrow> [])]"

text \<open>The \<open>for\<close> loop with its early return; \<open>keys\<close> is the \<open>Set\<close> in insertion order.
  \<open>isRoutableChannel\<close> is imported from \<open>route-reply.js\<close>, which is not among the
  sources: it is a parameter.\<close>

fun crossChannelScan ::
  "(jsstring option \<Rightarrow> bool) \<Rightarrow> 'r FollowupRun list \<Rightarrow> jsstring list \<Rightarrow> bool \<Rightarrow> bool" where
  "crossChannelScan isRoutableChannel [] keys hasUnkeyed =
     (if length keys = 0 then False
      else if hasUnkeyed then True
      else length keys > 1)"
| "crossChannelScan isRoutableChannel (item # rest) keys hasUnkeyed =
     (if isUnkeyed item then crossChannelScan isRoutableChannel rest keys True
      else if \<not> isRoutableChannel (originatingChannel item) \<or> \<not> truthy (originatingTo item)
      then True
      else crossChannelScan isRoutableChannel rest (List.insert (routeKey item) keys) hasUnkeyed)"

definition hasCrossChannelItems ::
  "(jsstring option \<Rightarrow> bool) \<Rightarrow> 'r FollowupRun list \<Rightarrow> bool" where
  "hasCrossChannelItems isRoutableChannel its = crossChannelScan isRoutableChannel its [] False"

subsection \<open>The drain loop\<close>

text \<open>One pass through the body of the \<open>while\<close> loop of \<open>scheduleFollowupDrain\<close>, from
  the return of the debounce wait to the next suspension: either the loop is left by
  \<open>break\<close>, or \<open>runFollowup\<close> is called with a run and awaited. The first component of
  \<open>Call\<close> is \<open>forceIndividualCollect\<close> after the pass.\<close>

datatype 'r Pass = Break "'r FollowupQueueState" | Call bool "'r FollowupQueueState" "'r FollowupRun"

definition shiftNext :: "bool \<Rightarrow> 'r FollowupQueueState \<Rightarrow> 'r Pass" where
  "shiftNext force queue =
     (case items queue of
        [] \<Rightarrow> Break queue
      | next # rest \<Rightarrow> Call force (queue\<lparr>items := rest\<rparr>) next)"

definition collectRun ::
  "int \<Rightarrow> 'r FollowupRun list \<Rightarrow> jsstring option \<Rightarrow> 'r \<Rightarrow> 'r FollowupRun" where
  "collectRun now its summary r =
     \<lparr> prompt = buildCollectPrompt its summary,
       messageId = None, summaryLine = None, enqueuedAt = now,
       originatingChannel =
         Option.bind (find (\<lambda>i. truthy (originatingChannel i)) its) originatingChannel,
       originatingTo =
         Option.bind (find (\<lambda>i. truthy (originatingTo i)) its) originatingTo,
       originatingAccountId =
         Option.bind (find (\<lambda>i. truthy (originatingAccountId i)) its) originatingAccountId,
       originatingThreadId =
         Option.bind (find (\<lambda>i. originatingThreadId i \<noteq> None) its) originatingThreadId,
       run = r \<rparr>"

definition summaryRun :: "int \<Rightarrow> jsstring \<Rightarrow> 'r \<Rightarrow> 'r FollowupRun" where
  "summaryRun now summaryPrompt r =
     \<lparr> prompt = summaryPrompt, messageId = None, summaryLine = None, enqueuedAt = now,
       originatingChannel = None, originatingTo = None, originatingAccountId = None,
       originatingThreadId = None, run = r \<rparr>"

definition drainPass ::
  "(jsstring option \<Rightarrow> bool) \<Rightarrow> int \<Rightarrow> bool \<Rightarrow> 'r FollowupQueueState \<Rightarrow> 'r Pass" where
  "drainPass isRoutableChannel now force queue =
     (if mode queue = Collect then
        if force then shiftNext force queue
        else if hasCrossChannelItems isRoutableChannel (items queue)
        then shiftNext True queue
        else
          let its = items queue;
              (summary, queue1) = buildSummaryPrompt (queue\<lparr>items := []\<rparr>)
          in (case (if its = [] then lastRun queue1 else Some (run (last its))) of
                None \<Rightarrow> Break queue1
              | Some r \<Rightarrow> Call force queue1 (collectRun now its summary r))
      else
        let (summaryPrompt, queue1) = buildSummaryPrompt queue in
        if truthy summaryPrompt
        then (case lastRun queue1 of
                None \<Rightarrow> Break queue1
              | Some r \<Rightarrow> Call force queue1 (summaryRun now (the summaryPrompt) r))
        else shiftNext force queue1)"

text \<open>The loop of one drain, run with no enqueue arriving while it is suspended. The
  executor is the parameter \<open>runFollowup\<close>: whether its \<open>k\<close>-th call (counted over
  \<open>calls\<close>) resolves or rejects; \<open>dateNow k\<close> is the clock read in the pass that
  issues the \<open>k\<close>-th call. A rejection leaves the loop through \<open>catch\<close>. The result is
  the queue at the exit of the loop and the runs passed to the executor, in order.
  The loop need not end: not returning is \<open>None\<close>.\<close>

partial_function (option) drainLoop ::
  "(jsstring option \<Rightarrow> bool) \<Rightarrow> (nat \<Rightarrow> 'r FollowupRun \<Rightarrow> bool) \<Rightarrow> (nat \<Rightarrow> int) \<Rightarrow> bool
     \<Rightarrow> 'r FollowupQueueState \<Rightarrow> 'r FollowupRun list
     \<Rightarrow> ('r FollowupQueueState \<times> 'r FollowupRun list) option" where
  "drainLoop isRoutableChannel runFollowup dateNow force queue calls =
     (if length (items queue) > 0 \<or> droppedCount queue > 0 then
        (case drainPass isRoutableChannel (dateNow (length calls)) force queue of
           Break queue1 \<Rightarrow> Some (queue1, calls)
         | Call force1 queue1 r \<Rightarrow>
             if runFollowup (length calls) r
             then drainLoop isRoutableChannel runFollowup dateNow force1 queue1 (calls @ [r])
             else Some (queue1, calls @ [r]))
      else Some (queue, calls))"

declare drainLoop.simps [code]

text \<open>The \<open>finally\<close> block: what becomes of the key when the loop is left.\<close>

datatype 'r AfterDrain = Discarded | Rescheduled "'r FollowupQueueState"

definition drainFinally :: "'r FollowupQueueState \<Rightarrow> 'r AfterDrain" where
  "drainFinally queue =
     (let queue1 = queue\<lparr>draining := False\<rparr> in
      if length (items queue1) = 0 \<and> droppedCount queue1 = 0 then Discarded
      else Rescheduled queue1)"

text \<open>The same loop, stopped after at most \<open>n\<close> passes: either it has been left (\<open>Exited\<close>), with the
  queue at the exit and the runs passed to the executor, or it is still running, with the
  flag, the queue and the runs passed so far.\<close>

datatype 'r Drain =
  Exited (drainQueue: "'r FollowupQueueState") (drainCalls: "'r FollowupRun list")
| Running bool (drainQueue: "'r FollowupQueueState") (drainCalls: "'r FollowupRun list")

fun drainSteps ::
  "(jsstring option \<Rightarrow> bool) \<Rightarrow> (nat \<Rightarrow> 'r FollowupRun \<Rightarrow> bool) \<Rightarrow> (nat \<Rightarrow> int) \<Rightarrow> nat \<Rightarrow> bool
     \<Rightarrow> 'r FollowupQueueState \<Rightarrow> 'r FollowupRun list \<Rightarrow> 'r Drain" where
  "drainSteps isRoutableChannel runFollowup dateNow 0 force queue calls =
     Running force queue calls"
| "drainSteps isRoutableChannel runFollowup dateNow (Suc n) force queue calls =
     (if length (items queue) > 0 \<or> droppedCount queue > 0 then
        (case drainPass isRoutableChannel (dateNow (length calls)) force queue of
           Break queue1 \<Rightarrow> Exited queue1 calls
         | Call force1 queue1 r \<Rightarrow>
             if runFollowup (length calls) r
             then drainSteps isRoutableChannel runFollowup dateNow n force1 queue1 (calls @ [r])
             else Exited queue1 (calls @ [r]))
      else Exited queue calls)"

text \<open>The detached function that \<open>scheduleFollowupDrain\<close> starts for a queue that is not
  draining, run with no enqueue arriving: the \<open>draining\<close> flag is set, the loop starts with
  \<open>forceIndividualCollect\<close> false, and the \<open>finally\<close> block decides what becomes of the key.
  \<open>Rescheduled\<close> stands for the call of \<open>scheduleFollowupDrain\<close> in the \<open>finally\<close> block, which
  starts this function again on the queue it is given.\<close>

definition drainTask ::
  "(jsstring option \<Rightarrow> bool) \<Rightarrow> (nat \<Rightarrow> 'r FollowupRun \<Rightarrow> bool) \<Rightarrow> (nat \<Rightarrow> int)
     \<Rightarrow> 'r FollowupQueueState \<Rightarrow> 'r FollowupRun list
     \<Rightarrow> ('r AfterDrain \<times> 'r FollowupRun list) option" where
  "drainTask isRoutableChannel runFollowup dateNow queue calls =
     (case drainLoop isRoutableChannel runFollowup dateNow False (queue\<lparr>draining := True\<rparr>) calls of
        None \<Rightarrow> None
      | Some (queue1, calls1) \<Rightarrow> Some (drainFinally queue1, calls1))"

subsection \<open>Drain loops and enqueues interleaved\<close>

text \<open>
  \<open>scheduleFollowupDrain\<close> starts its loop as a detached asynchronous function, which
  keeps the queue object it read from the registry and runs between the calls of
  \<open>enqueueFollowupRun\<close> and of \<open>scheduleFollowupDrain\<close> that arrive while it is
  suspended. The model of this is a transition system. Queue objects live in a heap, by
  address; the registry maps a session key to an address; a live loop is recorded with
  its key, the address of the object it holds, its \<open>forceIndividualCollect\<close> and the
  place where it is suspended: in the debounce wait, or awaiting \<open>runFollowup\<close>. The code
  between two suspension points runs without interruption, so it is one step.
\<close>

record DrainLoop =
  loopKey :: jsstring
  loopQueue :: nat
  forceIndividualCollect :: bool
  awaitingCall :: bool

record 'r World =
  heap :: "nat \<rightharpoonup> 'r FollowupQueueState"
  FOLLOWUP_QUEUES :: "jsstring \<rightharpoonup> nat"
  nextAddr :: nat
  loops :: "DrainLoop list"
  executorCalls :: "'r FollowupRun list"

definition initialWorld :: "'r World" where
  "initialWorld =
     \<lparr> heap = Map.empty, FOLLOWUP_QUEUES = Map.empty, nextAddr = 0, loops = [],
       executorCalls = [] \<rparr>"

text \<open>The registry as \<open>enqueueFollowupRun\<close> sees it: key to queue state.\<close>

definition registryOf :: "'r World \<Rightarrow> 'r registry" where
  "registryOf w = (\<lambda>key. Option.bind (FOLLOWUP_QUEUES w key) (heap w))"

text \<open>\<open>enqueueFollowupRun\<close> on the heap: the object registered under the key is updated
  in place; a key that is not registered gets a new object.\<close>

definition enqueueW ::
  "int \<Rightarrow> jsstring \<Rightarrow> 'r FollowupRun \<Rightarrow> QueueSettings \<Rightarrow> QueueDedupeMode \<Rightarrow> 'r World
     \<Rightarrow> 'r World" where
  "enqueueW now key r settings dedupeMode w =
     (let a = (case FOLLOWUP_QUEUES w key of Some a \<Rightarrow> a | None \<Rightarrow> nextAddr w);
          Q' = snd (enqueueFollowupRun now key r settings dedupeMode (registryOf w))
      in w\<lparr> heap := (heap w)(a := Q' key),
            FOLLOWUP_QUEUES := (FOLLOWUP_QUEUES w)(key \<mapsto> a),
            nextAddr := (if FOLLOWUP_QUEUES w key = None then Suc (nextAddr w)
                         else nextAddr w) \<rparr>)"

text \<open>\<open>waitForQueueDebounce\<close> returns once the time since the last enqueue has reached
  the debounce window.\<close>

definition debounceElapsed :: "int \<Rightarrow> 'r FollowupQueueState \<Rightarrow> bool" where
  "debounceElapsed now queue =
     (let d = max 0 (debounceMs queue)
      in d \<le> 0 \<or> of_int (now - lastEnqueuedAt queue) \<ge> d)"

text \<open>\<open>scheduleFollowupDrain\<close>, up to the first suspension of the loop it starts. Without
  a registered queue, or with the draining flag set, nothing happens. Otherwise the flag
  is set and the loop tests its condition: when it holds the loop is suspended in the
  debounce wait; when it fails the \<open>finally\<close> block runs at once, on an empty queue with
  no dropped count, and unregisters the key.\<close>

definition scheduleW :: "jsstring \<Rightarrow> 'r World \<Rightarrow> 'r World" where
  "scheduleW key w =
     (case FOLLOWUP_QUEUES w key of
        None \<Rightarrow> w
      | Some a \<Rightarrow>
          (case heap w a of
             None \<Rightarrow> w
           | Some queue \<Rightarrow>
               if draining queue then w
               else if length (items queue) > 0 \<or> droppedCount queue > 0
               then w\<lparr> heap := (heap w)(a \<mapsto> queue\<lparr>draining := True\<rparr>),
                       loops := \<lparr> loopKey = key, loopQueue = a,
                                  forceIndividualCollect = False, awaitingCall = False \<rparr>
                                # loops w \<rparr>
               else w\<lparr> heap := (heap w)(a \<mapsto> queue\<lparr>draining := False\<rparr>),
                       FOLLOWUP_QUEUES := (FOLLOWUP_QUEUES w)(key := None) \<rparr>))"

text \<open>The end of a loop that holds the queue state \<open>queue\<close>: the \<open>finally\<close> block.\<close>

definition finallyW :: "DrainLoop \<Rightarrow> 'r FollowupQueueState \<Rightarrow> 'r World \<Rightarrow> 'r World" where
  "finallyW l queue w =
     (let w1 = w\<lparr> heap := (heap w)(loopQueue l \<mapsto> queue\<lparr>draining := False\<rparr>),
                  loops := remove1 l (loops w) \<rparr>
      in case drainFinally queue of
           Discarded \<Rightarrow> w1\<lparr> FOLLOWUP_QUEUES := (FOLLOWUP_QUEUES w1)(loopKey l := None) \<rparr>
         | Rescheduled queue1 \<Rightarrow> scheduleW (loopKey l) w1)"

text \<open>A loop leaves the debounce wait and runs one pass of its body on the queue state
  \<open>queue\<close> it holds.\<close>

definition passW ::
  "(jsstring option \<Rightarrow> bool) \<Rightarrow> int \<Rightarrow> DrainLoop \<Rightarrow> 'r FollowupQueueState \<Rightarrow> 'r World
     \<Rightarrow> 'r World" where
  "passW isRoutableChannel now l queue w =
     (case drainPass isRoutableChannel now (forceIndividualCollect l) queue of
        Break queue1 \<Rightarrow> finallyW l queue1 w
      | Call force1 queue1 r \<Rightarrow>
          w\<lparr> heap := (heap w)(loopQueue l \<mapsto> queue1),
               executorCalls := executorCalls w @ [r],
               loops := map (\<lambda>x. if x = l
                                  then l\<lparr>forceIndividualCollect := force1, awaitingCall := True\<rparr>
                                  else x) (loops w) \<rparr>)"

text \<open>The call of \<open>runFollowup\<close> a loop awaits settles: resolved (\<open>ok\<close>), the loop tests
  its condition and waits again or ends; rejected, it ends through \<open>catch\<close>.\<close>

definition settleW :: "bool \<Rightarrow> DrainLoop \<Rightarrow> 'r FollowupQueueState \<Rightarrow> 'r World \<Rightarrow> 'r World" where
  "settleW ok l queue w =
     (if ok \<and> (length (items queue) > 0 \<or> droppedCount queue > 0)
      then w\<lparr> loops := map (\<lambda>x. if x = l then l\<lparr>awaitingCall := False\<rparr> else x) (loops w) \<rparr>
      else finallyW l queue w)"

inductive step :: "(jsstring option \<Rightarrow> bool) \<Rightarrow> 'r World \<Rightarrow> 'r World \<Rightarrow> bool" where
  enqueue: "step R w (enqueueW now key r settings dedupeMode w)"
| schedule: "step R w (scheduleW key w)"
| pass: "l \<in> set (loops w) \<Longrightarrow> \<not> awaitingCall l \<Longrightarrow> heap w (loopQueue l) = Some queue \<Longrightarrow>
         debounceElapsed now queue \<Longrightarrow> step R w (passW R now l queue w)"
| settle: "l \<in> set (loops w) \<Longrightarrow> awaitingCall l \<Longrightarrow> heap w (loopQueue l) = Some queue \<Longrightarrow>
           step R w (settleW ok l queue w)"

inductive reachable :: "(jsstring option \<Rightarrow> bool) \<Rightarrow> 'r World \<Rightarrow> bool" where
  reach_init: "reachable R initialWorld"
| reach_step: "reachable R w \<Longrightarrow> step R w w' \<Longrightarrow> reachable R w'"

text \<open>What holds of every reachable world: no two live loops have one key; a live loop
  holds the object registered under its key, and that object has the draining flag set;
  registered addresses are allocated, and no two keys share one.\<close>

definition loopsDistinct :: "'r World \<Rightarrow> bool" where
  "loopsDistinct w = distinct (map loopKey (loops w))"

definition loopsHoldRegistered :: "'r World \<Rightarrow> bool" where
  "loopsHoldRegistered w =
     (\<forall>l \<in> set (loops w).
        FOLLOWUP_QUEUES w (loopKey l) = Some (loopQueue l) \<and>
        (\<exists>queue. heap w (loopQueue l) = Some queue \<and> draining queue))"

definition registryAllocated :: "'r World \<Rightarrow> bool" where
  "registryAllocated w =
     (\<forall>key a. FOLLOWUP_QUEUES w key = Some a \<longrightarrow> a < nextAddr w \<and> heap w a \<noteq> None)"

definition registryInjective :: "'r World \<Rightarrow> bool" where
  "registryInjective w =
     (\<forall>k1 k2 a. FOLLOWUP_QUEUES w k1 = Some a \<longrightarrow> FOLLOWUP_QUEUES w k2 = Some a \<longrightarrow> k1 = k2)"

definition worldInvariant :: "'r World \<Rightarrow> bool" where
  "worldInvariant w =
     (loopsDistinct w \<and> loopsHoldRegistered w \<and> registryAllocated w \<and> registryInjective w)"


text \<open>A routed item has a complete route when its channel is routable and it names a
  destination. A batch can be merged when no item of it carries a route, or when every
  item carries a complete route and all have the same route key.\<close>

definition completeRoute :: "(jsstring option \<Rightarrow> bool) \<Rightarrow> 'r FollowupRun \<Rightarrow> bool" where
  "completeRoute isRoutableChannel item =
     (\<not> isUnkeyed item \<and> isRoutableChannel (originatingChannel item) \<and>
      truthy (originatingTo item))"

definition sameRoute :: "(jsstring option \<Rightarrow> bool) \<Rightarrow> 'r FollowupRun list \<Rightarrow> bool" where
  "sameRoute isRoutableChannel its =
     (list_all isUnkeyed its \<or>
      (list_all (completeRoute isRoutableChannel) its \<and>
       list_all (\<lambda>x. list_all (\<lambda>y. routeKey x = routeKey y) its) its))"

text \<open>How many items a drain that takes them one by one passes to the executor before
  it is left: all of them, or those up to the first call that rejects. \<open>i\<close> is the index
  of the next call.\<close>

fun perItemCount :: "(nat \<Rightarrow> 'a \<Rightarrow> bool) \<Rightarrow> nat \<Rightarrow> 'a list \<Rightarrow> nat" where
  "perItemCount runFollowup i [] = 0"
| "perItemCount runFollowup i (x # xs) =
     (if runFollowup i x then Suc (perItemCount runFollowup (Suc i) xs) else 1)"

section \<open>The session store\<close>

text \<open>
  \<open>config/sessions.ts\<close>. A store is a JSON document that maps session keys to entries;
  the file system, the clock and the JSON library are the environment of the two
  functions and are given to them as parameters.
\<close>

record 's SessionStoreCacheEntry =
  cachedStore :: 's
  loadedAt :: int
  cachedPath :: jsstring
  mtimeMs :: "rat option"

text \<open>\<open>SESSION_STORE_CACHE\<close>.\<close>

type_synonym 's SessionStoreCache = "jsstring \<rightharpoonup> 's SessionStoreCacheEntry"


definition invalidateSessionStoreCache ::
  "jsstring \<Rightarrow> 's SessionStoreCache \<Rightarrow> 's SessionStoreCache" where
  "invalidateSessionStoreCache storePath cache = cache(storePath := None)"

subsection \<open>loadSessionStore\<close>

text \<open>What \<open>JSON5.parse\<close> does with the file's text: it throws, or returns a falsy value, a
  value that is not an object, or an object, read as a mapping.\<close>

datatype 's Parsed = ParseThrows | ParsedFalsy | ParsedNonObject | ParsedObject 's





subsection \<open>saveSessionStore\<close>

datatype FsOp =
  Mkdir jsstring | WriteFile jsstring jsstring | Rename jsstring jsstring | Rm jsstring

text \<open>A file system call succeeds or throws an error, of which the code is read
  (\<open>None\<close>: an error without a code).\<close>

datatype FsResult = FsOk | FsFails "jsstring option"

datatype StoreEvent = CacheDelete jsstring | FsCall FsOp

datatype Completion = Returns | Throws "jsstring option"

definition isENOENT :: "jsstring option \<Rightarrow> bool" where
  "isENOENT code = (code = Some (lit ''ENOENT''))"

text \<open>\<open>`${storePath}.${process.pid}.${crypto.randomUUID()}.tmp`\<close>\<close>

definition tmpPath :: "jsstring \<Rightarrow> nat \<Rightarrow> jsstring \<Rightarrow> jsstring" where
  "tmpPath storePath pid uuid = storePath @ [46] @ showNat pid @ [46] @ uuid @ lit ''.tmp''"

text \<open>The \<open>try\<close> block's two calls, and the two calls of the best-effort retry. The file
  system is the parameter \<open>fs\<close>: what the \<open>k\<close>-th call of \<open>saveSessionStore\<close> does. Each
  returns the result of its last call and the calls made.\<close>

definition writeThenRename ::
  "(nat \<Rightarrow> FsOp \<Rightarrow> FsResult) \<Rightarrow> nat \<Rightarrow> jsstring \<Rightarrow> jsstring \<Rightarrow> jsstring
     \<Rightarrow> FsResult \<times> FsOp list" where
  "writeThenRename fs k tmp storePath json =
     (case fs k (WriteFile tmp json) of
        FsFails c \<Rightarrow> (FsFails c, [WriteFile tmp json])
      | FsOk \<Rightarrow> (fs (k + 1) (Rename tmp storePath), [WriteFile tmp json, Rename tmp storePath]))"

definition directWrite ::
  "(nat \<Rightarrow> FsOp \<Rightarrow> FsResult) \<Rightarrow> nat \<Rightarrow> jsstring \<Rightarrow> jsstring \<Rightarrow> jsstring
     \<Rightarrow> FsResult \<times> FsOp list" where
  "directWrite fs k dir storePath json =
     (case fs k (Mkdir dir) of
        FsFails c \<Rightarrow> (FsFails c, [Mkdir dir])
      | FsOk \<Rightarrow> (fs (k + 1) (WriteFile storePath json), [Mkdir dir, WriteFile storePath json]))"

text \<open>The \<open>try\<close> and \<open>catch\<close> blocks: how they complete, and the calls made.\<close>

definition saveAttempt ::
  "(nat \<Rightarrow> FsOp \<Rightarrow> FsResult) \<Rightarrow> jsstring \<Rightarrow> jsstring \<Rightarrow> jsstring \<Rightarrow> jsstring
     \<Rightarrow> Completion \<times> FsOp list" where
  "saveAttempt fs dir tmp storePath json =
     (let (r1, ops1) = writeThenRename fs 1 tmp storePath json in
      case r1 of
        FsOk \<Rightarrow> (Returns, ops1)
      | FsFails code \<Rightarrow>
          if isENOENT code then
            (let (r2, ops2) = directWrite fs (1 + length ops1) dir storePath json in
             case r2 of
               FsOk \<Rightarrow> (Returns, ops1 @ ops2)
             | FsFails code2 \<Rightarrow>
                 if isENOENT code2 then (Returns, ops1 @ ops2)
                 else (Throws code2, ops1 @ ops2))
          else (Throws code, ops1))"

text \<open>\<open>saveSessionStore\<close>: how the call completes, the cache deletion and the file system
  calls in order, and the cache. \<open>stringify\<close> is \<open>JSON.stringify(store, null, 2)\<close> and
  \<open>dirname\<close> is \<open>path.dirname\<close>. The first \<open>mkdir\<close> is outside the \<open>try\<close>; the \<open>finally\<close> block
  removes the temporary file, and an error it throws replaces the completion.\<close>

definition saveSessionStore ::
  "(nat \<Rightarrow> FsOp \<Rightarrow> FsResult) \<Rightarrow> ('s \<Rightarrow> jsstring) \<Rightarrow> (jsstring \<Rightarrow> jsstring) \<Rightarrow> nat \<Rightarrow> jsstring
     \<Rightarrow> jsstring \<Rightarrow> 's \<Rightarrow> 's SessionStoreCache
     \<Rightarrow> Completion \<times> StoreEvent list \<times> 's SessionStoreCache" where
  "saveSessionStore fs stringify dirname pid uuid storePath st cache =
     (let cache1 = invalidateSessionStoreCache storePath cache;
          dir = dirname storePath
      in case fs 0 (Mkdir dir) of
           FsFails code \<Rightarrow> (Throws code, [CacheDelete storePath, FsCall (Mkdir dir)], cache1)
         | FsOk \<Rightarrow>
             let json = stringify st;
                 tmp = tmpPath storePath pid uuid;
                 (completion, ops) = saveAttempt fs dir tmp storePath json;
                 events = CacheDelete storePath # map FsCall (Mkdir dir # ops @ [Rm tmp])
             in case fs (1 + length ops) (Rm tmp) of
                  FsFails code \<Rightarrow> (Throws code, events, cache1)
                | FsOk \<Rightarrow> (completion, events, cache1))"

section \<open>Session initialisation and the heartbeat\<close>



subsection \<open>initSessionState\<close>

definition DEFAULT_IDLE_MINUTES :: rat where
  "DEFAULT_IDLE_MINUTES = 60"

text \<open>\<open>Math.max(sessionCfg?.idleMinutes ?? DEFAULT_IDLE_MINUTES, 1)\<close>.\<close>

definition idleMinutesOf :: "rat option \<Rightarrow> rat" where
  "idleMinutesOf configured =
     max (case configured of Some m \<Rightarrow> m | None \<Rightarrow> DEFAULT_IDLE_MINUTES) 1"




subsection \<open>runWebHeartbeatOnce\<close>















section \<open>The gateway's agent method\<close>

text \<open>
  \<open>gateway/server-methods/agent.ts\<close>. The handler is an asynchronous function: it runs
  without interruption up to an \<open>await\<close> and from there on once the awaited promise has
  settled, and other handlers run in between. The only \<open>await\<close> of the handler is the one of
  \<open>saveSessionStore\<close>; the agent's run is started without being awaited, and its \<open>then\<close> and
  \<open>catch\<close> callbacks run when it settles.
\<close>

datatype ErrorCode = INVALID_REQUEST | UNAVAILABLE

datatype ErrorShape = ErrorShape ErrorCode jsstring

text \<open>The three payloads of the handler: \<open>{runId, status: "accepted", acceptedAt}\<close>,
  \<open>{runId, status: "ok", summary: "completed", result}\<close> and
  \<open>{runId, status: "error", summary}\<close>.\<close>

datatype 'res AgentPayload =
  AcceptedPayload jsstring int | OkPayload jsstring 'res | ErrorPayload jsstring jsstring

record 'res DedupeEntry =
  dedupeTs :: int
  dedupeOk :: bool
  dedupePayload :: "'res AgentPayload"
  dedupeError :: "ErrorShape option"

text \<open>The fourth argument of \<open>respond\<close>: absent, \<open>{cached: true}\<close>, \<open>{runId}\<close> or
  \<open>{runId, error}\<close>.\<close>

datatype ResponseMeta = NoMeta | MetaCached | MetaRun jsstring | MetaRunError jsstring jsstring

record 'res AgentResponse =
  respOk :: bool
  respPayload :: "'res AgentPayload option"
  respError :: "ErrorShape option"
  respMeta :: ResponseMeta

text \<open>The fields of the request that the handler's control flow reads.\<close>

record AgentParams =
  idempotencyKey :: jsstring
  paramSessionKey :: "jsstring option"

text \<open>
  What the functions that are not among the sources return during one call of the
  handler: \<open>validParams\<close> is \<open>validateAgentParams(p)\<close> and \<open>validationErrors\<close> the message built
  from its errors; \<open>sendPolicyDeny\<close> tells whether \<open>resolveSendPolicy\<close> returns \<open>"deny"\<close>;
  \<open>storeLoaded\<close> and \<open>storePathKnown\<close> tell whether \<open>loadSessionEntry\<close> returns a store and a
  store path; \<open>saveResolves\<close> tells whether the promise of \<open>saveSessionStore\<close> resolves;
  \<open>nowAccepted\<close> and \<open>nowStored\<close> are the two readings of the clock for \<open>acceptedAt\<close> and \<open>ts\<close>.
\<close>

record AgentEnv =
  validParams :: bool
  validationErrors :: jsstring
  sendPolicyDeny :: bool
  storeLoaded :: bool
  storePathKnown :: bool
  saveResolves :: bool
  nowAccepted :: int
  nowStored :: int

text \<open>
  The gateway as the handlers see it: \<open>context.dedupe\<close>; the run id of every call of
  \<open>agentCommand\<close> so far; the responses sent, each with the number of the request it answers;
  the handlers suspended at the \<open>await\<close>; the runs that have not settled yet.
\<close>

record 'res Gateway =
  dedupe :: "jsstring \<rightharpoonup> 'res DedupeEntry"
  agentCommandCalls :: "jsstring list"
  responded :: "(nat \<times> 'res AgentResponse) list"
  awaitingSave :: "(nat \<times> AgentParams \<times> AgentEnv) list"
  inFlight :: "(nat \<times> AgentParams) list"

definition dedupeKey :: "AgentParams \<Rightarrow> jsstring" where
  "dedupeKey request = lit ''agent:'' @ idempotencyKey request"

definition respond :: "nat \<Rightarrow> 'res AgentResponse \<Rightarrow> 'res Gateway \<Rightarrow> 'res Gateway" where
  "respond frame response g = g\<lparr> responded := responded g @ [(frame, response)] \<rparr>"

definition requestedSessionKey :: "AgentParams \<Rightarrow> jsstring option" where
  "requestedSessionKey request =
     (case paramSessionKey request of
        None \<Rightarrow> None
      | Some s \<Rightarrow> if trim s = [] then None else Some (trim s))"

text \<open>From \<open>const accepted\<close> on: the acknowledgement is stored and sent, and the run is
  started.\<close>

definition agentAccept ::
  "AgentEnv \<Rightarrow> nat \<Rightarrow> AgentParams \<Rightarrow> 'res Gateway \<Rightarrow> 'res Gateway" where
  "agentAccept env frame request g =
     (let runId = idempotencyKey request;
          accepted = AcceptedPayload runId (nowAccepted env);
          g1 = g\<lparr> dedupe := (dedupe g)(dedupeKey request \<mapsto>
                    \<lparr> dedupeTs = nowStored env, dedupeOk = True, dedupePayload = accepted,
                      dedupeError = None \<rparr>) \<rparr>;
          g2 = respond frame
                 \<lparr> respOk = True, respPayload = Some accepted, respError = None,
                   respMeta = MetaRun runId \<rparr> g1
      in g2\<lparr> agentCommandCalls := agentCommandCalls g2 @ [runId],
              inFlight := inFlight g2 @ [(frame, request)] \<rparr>)"

text \<open>The handler from its start to its return or to the \<open>await\<close>.\<close>

definition agentBegin ::
  "AgentEnv \<Rightarrow> nat \<Rightarrow> AgentParams \<Rightarrow> 'res Gateway \<Rightarrow> 'res Gateway" where
  "agentBegin env frame request g =
     (if \<not> validParams env then
        respond frame
          \<lparr> respOk = False, respPayload = None,
            respError = Some (ErrorShape INVALID_REQUEST
                                (lit ''invalid agent params: '' @ validationErrors env)),
            respMeta = NoMeta \<rparr> g
      else
        case dedupe g (dedupeKey request) of
          Some cached \<Rightarrow>
            respond frame
              \<lparr> respOk = dedupeOk cached, respPayload = Some (dedupePayload cached),
                respError = dedupeError cached, respMeta = MetaCached \<rparr> g
        | None \<Rightarrow>
            (case requestedSessionKey request of
               None \<Rightarrow> agentAccept env frame request g
             | Some requested \<Rightarrow>
                 if sendPolicyDeny env then
                   respond frame
                     \<lparr> respOk = False, respPayload = None,
                       respError = Some (ErrorShape INVALID_REQUEST
                                           (lit ''send blocked by session policy'')),
                       respMeta = NoMeta \<rparr> g
                 else if storeLoaded env \<and> storePathKnown env then
                   g\<lparr> awaitingSave := awaitingSave g @ [(frame, request, env)] \<rparr>
                 else agentAccept env frame request g))"

text \<open>The handler of request \<open>frame\<close> after its \<open>await\<close>: when the save has thrown the
  handler ends there, otherwise it goes on to accept.\<close>

definition agentResume :: "nat \<Rightarrow> 'res Gateway \<Rightarrow> 'res Gateway" where
  "agentResume frame g =
     (case find (\<lambda>(f, request, env). f = frame) (awaitingSave g) of
        None \<Rightarrow> g
      | Some (f, request, env) \<Rightarrow>
          (let g1 = g\<lparr> awaitingSave := filter (\<lambda>(f, request, env). f \<noteq> frame) (awaitingSave g) \<rparr>
           in if saveResolves env then agentAccept env frame request g1 else g1))"

text \<open>How the run settles: with a result, or with an error, of which \<open>String(err)\<close> and
  \<open>formatForLog(err)\<close> are read.\<close>

datatype 'res RunOutcome = RunResolves 'res | RunRejects jsstring jsstring

text \<open>The \<open>then\<close> and \<open>catch\<close> callbacks of the run started for request \<open>frame\<close>; \<open>now\<close> is the
  clock when the entry is stored.\<close>

definition agentSettled :: "nat \<Rightarrow> 'res RunOutcome \<Rightarrow> int \<Rightarrow> 'res Gateway \<Rightarrow> 'res Gateway" where
  "agentSettled frame outcome now g =
     (case find (\<lambda>(f, request). f = frame) (inFlight g) of
        None \<Rightarrow> g
      | Some (f, request) \<Rightarrow>
          (let runId = idempotencyKey request;
               g1 = g\<lparr> inFlight := filter (\<lambda>(f, request). f \<noteq> frame) (inFlight g) \<rparr>
           in case outcome of
                RunResolves result \<Rightarrow>
                  (let payload = OkPayload runId result;
                       g2 = g1\<lparr> dedupe := (dedupe g1)(dedupeKey request \<mapsto>
                                 \<lparr> dedupeTs = now, dedupeOk = True, dedupePayload = payload,
                                   dedupeError = None \<rparr>) \<rparr>
                   in respond frame
                        \<lparr> respOk = True, respPayload = Some payload, respError = None,
                          respMeta = MetaRun runId \<rparr> g2)
              | RunRejects message logged \<Rightarrow>
                  (let err = ErrorShape UNAVAILABLE message;
                       payload = ErrorPayload runId message;
                       g2 = g1\<lparr> dedupe := (dedupe g1)(dedupeKey request \<mapsto>
                                 \<lparr> dedupeTs = now, dedupeOk = False, dedupePayload = payload,
                                   dedupeError = Some err \<rparr>) \<rparr>
                   in respond frame
                        \<lparr> respOk = False, respPayload = Some payload, respError = Some err,
                          respMeta = MetaRunError runId logged \<rparr> g2)))"

text \<open>What the event loop runs next: the handler of a request that arrives, the rest of
  a handler whose save has settled, or the callbacks of a run that has settled.\<close>

datatype 'res GatewayEvent =
  RequestArrives nat AgentParams AgentEnv
| SaveSettles nat
| RunSettles nat "'res RunOutcome" int

fun gatewayStep :: "'res Gateway \<Rightarrow> 'res GatewayEvent \<Rightarrow> 'res Gateway" where
  "gatewayStep g (RequestArrives frame request env) = agentBegin env frame request g"
| "gatewayStep g (SaveSettles frame) = agentResume frame g"
| "gatewayStep g (RunSettles frame outcome now) = agentSettled frame outcome now g"

definition gatewayRun :: "'res Gateway \<Rightarrow> 'res GatewayEvent list \<Rightarrow> 'res Gateway" where
  "gatewayRun g events = foldl gatewayStep g events"

definition initialGateway :: "'res Gateway" where
  "initialGateway =
     \<lparr> dedupe = Map.empty, agentCommandCalls = [], responded = [], awaitingSave = [],
       inFlight = [] \<rparr>"

section \<open>Sample data\<close>

text \<open>Concrete runs, queues and settings on which the theorems below are instantiated.\<close>

definition sampleRun ::
  "string \<Rightarrow> string option \<Rightarrow> string option \<Rightarrow> string option \<Rightarrow> nat FollowupRun" where
  "sampleRun p mid ch to =
     \<lparr> prompt = lit p, messageId = map_option lit mid, summaryLine = None, enqueuedAt = 0,
       originatingChannel = map_option lit ch, originatingTo = map_option lit to,
       originatingAccountId = None, originatingThreadId = None, run = 7 \<rparr>"

definition sampleQueue ::
  "QueueMode \<Rightarrow> int \<Rightarrow> QueueDropPolicy \<Rightarrow> nat FollowupRun list \<Rightarrow> nat FollowupQueueState" where
  "sampleQueue m c p its =
     \<lparr> items = its, draining = False, lastEnqueuedAt = 0, mode = m, debounceMs = 0, cap = c,
       dropPolicy = p, droppedCount = 0, summaryLines = [], lastRun = None \<rparr>"

definition sampleSettings :: "QueueMode \<Rightarrow> QueueSettings" where
  "sampleSettings m = \<lparr> s_mode = m, s_debounceMs = None, s_cap = None, s_dropPolicy = None \<rparr>"

definition sampleSettingsWith ::
  "QueueMode \<Rightarrow> rat \<Rightarrow> QueueDropPolicy \<Rightarrow> QueueSettings" where
  "sampleSettingsWith m c p =
     \<lparr> s_mode = m, s_debounceMs = None, s_cap = Some c, s_dropPolicy = Some p \<rparr>"

text \<open>A registry reached by three calls: two items under \<open>summarize\<close> with cap 1 (the
  second evicts the first and counts it), then a third under \<open>old\<close>.\<close>

definition sampleOverflowRegistry :: "nat registry" where
  "sampleOverflowRegistry =
     snd (enqueueFollowupRun 3 (lit ''k'') (sampleRun ''c'' None None None)
            (sampleSettingsWith Followup 1 DropOld) DedupeNone
       (snd (enqueueFollowupRun 2 (lit ''k'') (sampleRun ''b'' None None None)
               (sampleSettingsWith Followup 1 Summarize) DedupeNone
          (snd (enqueueFollowupRun 1 (lit ''k'') (sampleRun ''a'' None None None)
                  (sampleSettingsWith Followup 1 Summarize) DedupeNone Map.empty)))))"

text \<open>A queue with nothing queued and one dropped item counted.\<close>

definition samplePendingQueue :: "QueueMode \<Rightarrow> QueueDropPolicy \<Rightarrow> nat FollowupQueueState" where
  "samplePendingQueue m p =
     \<lparr> items = [], draining = True, lastEnqueuedAt = 3, mode = m, debounceMs = 1000, cap = 1,
       dropPolicy = p, droppedCount = 1, summaryLines = [lit ''a''], lastRun = Some 7 \<rparr>"

text \<open>The world after one enqueue and one call of \<open>scheduleFollowupDrain\<close>.\<close>

definition sampleDrainingWorld :: "nat World" where
  "sampleDrainingWorld =
     scheduleW (lit ''k'')
       (enqueueW 1 (lit ''k'') (sampleRun ''a'' None None None) (sampleSettings Followup)
          DedupeMessageId initialWorld)"



text \<open>A file system in which the write of the temporary file fails because the directory is
  gone, and every other call succeeds.\<close>

definition sampleFsEnoentOnce :: "nat \<Rightarrow> FsOp \<Rightarrow> FsResult" where
  "sampleFsEnoentOnce i op = (if i = 1 then FsFails (Some (lit ''ENOENT'')) else FsOk)"







text \<open>An \<open>agent\<close> request with a session key, and an environment in which the request is
  valid, the send policy allows it, the session store is found and its save resolves.\<close>

definition sampleParams :: AgentParams where
  "sampleParams = \<lparr> idempotencyKey = lit ''idem-1'', paramSessionKey = Some (lit ''main'') \<rparr>"

definition sampleAgentEnv :: "int \<Rightarrow> AgentEnv" where
  "sampleAgentEnv now =
     \<lparr> validParams = True, validationErrors = [], sendPolicyDeny = False, storeLoaded = True,
       storePathKnown = True, saveResolves = True, nowAccepted = now, nowStored = now \<rparr>"

section \<open>Properties of the follow-up queue\<close>

subsection \<open>Strings and summary lines\<close>




subsection \<open>Enqueueing\<close>

lemma getFollowupQueue_existing:
  "Q key = Some existing \<Longrightarrow>
     items (getFollowupQueue key settings Q) = items existing \<and>
     draining (getFollowupQueue key settings Q) = draining existing \<and>
     droppedCount (getFollowupQueue key settings Q) = droppedCount existing \<and>
     summaryLines (getFollowupQueue key settings Q) = summaryLines existing \<and>
     lastRun (getFollowupQueue key settings Q) = lastRun existing \<and>
     lastEnqueuedAt (getFollowupQueue key settings Q) = lastEnqueuedAt existing"
  by (simp add: getFollowupQueue_def)

lemma getFollowupQueue_fresh:
  "Q key = None \<Longrightarrow> items (getFollowupQueue key settings Q) = []"
  by (simp add: getFollowupQueue_def)

lemma recordDropped_fields:
  "items (recordDropped ds q) = items q \<and>
   droppedCount (recordDropped ds q) = droppedCount q + length ds \<and>
   summaryLines (recordDropped ds q) = summaryLines q @ map buildQueueSummaryLine ds \<and>
   cap (recordDropped ds q) = cap q \<and> dropPolicy (recordDropped ds q) = dropPolicy q \<and>
   lastRun (recordDropped ds q) = lastRun q \<and>
   lastEnqueuedAt (recordDropped ds q) = lastEnqueuedAt q \<and>
   draining (recordDropped ds q) = draining q \<and> mode (recordDropped ds q) = mode q"
  by (induction ds arbitrary: q) simp_all


lemma enqueue_at_cap_new:
  assumes "queue = getFollowupQueue key settings Q"
    and "\<not> isDeduplicated dedupeMode r queue"
    and "0 < cap queue" and "cap queue \<le> int (length (items queue))"
    and "dropPolicy queue = DropNew"
  shows "enqueueFollowupRun now key r settings dedupeMode Q =
           (False, Q(key \<mapsto> queue\<lparr>lastEnqueuedAt := now, lastRun := Some (run r)\<rparr>))"
  using assms by (simp add: enqueueFollowupRun_def Let_def)


lemma at_cap_queue_exists:
  assumes "0 < cap (getFollowupQueue key settings Q)"
    and "cap (getFollowupQueue key settings Q)
           \<le> int (length (items (getFollowupQueue key settings Q)))"
  shows "Q key \<noteq> None"
proof
  assume "Q key = None"
  then have "items (getFollowupQueue key settings Q) = []"
    by (rule getFollowupQueue_fresh)
  with assms show False by simp
qed

text \<open>
  Claim C10. A call of \<open>enqueueFollowupRun\<close> that is rejected because the queue is at its
  cap under the drop policy \<open>new\<close> returns \<open>false\<close> after it has written to the queue:
  \<open>lastEnqueuedAt\<close> is the current time and \<open>lastRun\<close> is the run parameters of the rejected
  item. The item list is the one the queue had before the call (and so are the dropped
  count, the summary lines and the draining flag); the other keys are untouched.
\<close>

theorem enqueue_rejected_at_cap_still_writes:
  assumes "queue = getFollowupQueue key settings Q"
    and "\<not> isDeduplicated dedupeMode r queue"
    and "0 < cap queue" and "cap queue \<le> int (length (items queue))"
    and "dropPolicy queue = DropNew"
    and "res = enqueueFollowupRun now key r settings dedupeMode Q"
    and "queue' = the (snd res key)"
  shows "fst res = False \<and> snd res = Q(key \<mapsto> queue') \<and>
         lastEnqueuedAt queue' = now \<and> lastRun queue' = Some (run r) \<and>
         Q key \<noteq> None \<and> items queue' = items (the (Q key)) \<and>
         droppedCount queue' = droppedCount (the (Q key)) \<and>
         summaryLines queue' = summaryLines (the (Q key)) \<and>
         draining queue' = draining (the (Q key))"
proof -
  have ex: "Q key \<noteq> None"
    using assms(1,3,4) at_cap_queue_exists [of key settings Q] by simp
  then obtain existing where e: "Q key = Some existing" by blast
  have r: "res = (False, Q(key \<mapsto> queue\<lparr>lastEnqueuedAt := now, lastRun := Some (run r)\<rparr>))"
    using enqueue_at_cap_new [OF assms(1-5)] assms(6) by simp
  then have q: "queue' = queue\<lparr>lastEnqueuedAt := now, lastRun := Some (run r)\<rparr>"
    using assms(7) by simp
  show ?thesis
    using r q e getFollowupQueue_existing [of Q key existing settings] assms(1) by simp
qed

theorem enqueue_rejected_at_cap_still_writes_witness:
  "fst (enqueueFollowupRun 5 (lit ''k'') (sampleRun ''c'' None None None)
          (sampleSettings Followup) DedupeMessageId
          [lit ''k'' \<mapsto> sampleQueue Followup 2 DropNew
             [sampleRun ''a'' None None None, sampleRun ''b'' None None None]]) = False \<and>
   lastEnqueuedAt (the (snd (enqueueFollowupRun 5 (lit ''k'') (sampleRun ''c'' None None None)
          (sampleSettings Followup) DedupeMessageId
          [lit ''k'' \<mapsto> sampleQueue Followup 2 DropNew
             [sampleRun ''a'' None None None, sampleRun ''b'' None None None]]) (lit ''k''))) = 5 \<and>
   lastRun (the (snd (enqueueFollowupRun 5 (lit ''k'') (sampleRun ''c'' None None None)
          (sampleSettings Followup) DedupeMessageId
          [lit ''k'' \<mapsto> sampleQueue Followup 2 DropNew
             [sampleRun ''a'' None None None, sampleRun ''b'' None None None]]) (lit ''k''))) = Some 7 \<and>
   items (the (snd (enqueueFollowupRun 5 (lit ''k'') (sampleRun ''c'' None None None)
          (sampleSettings Followup) DedupeMessageId
          [lit ''k'' \<mapsto> sampleQueue Followup 2 DropNew
             [sampleRun ''a'' None None None, sampleRun ''b'' None None None]]) (lit ''k'')))
     = [sampleRun ''a'' None None None, sampleRun ''b'' None None None]"
proof -
  let ?Q = "[lit ''k'' \<mapsto> sampleQueue Followup 2 DropNew
             [sampleRun ''a'' None None None, sampleRun ''b'' None None None]]"
  let ?q = "getFollowupQueue (lit ''k'') (sampleSettings Followup) ?Q"
  have h2: "\<not> isDeduplicated DedupeMessageId (sampleRun ''c'' None None None) ?q"
    by (simp add: isDeduplicated_def isRunAlreadyQueued_def sampleRun_def truthy_def)
  have h3: "0 < cap ?q"
    by (simp add: getFollowupQueue_def sampleQueue_def sampleSettings_def)
  have h4: "cap ?q \<le> int (length (items ?q))"
    by (simp add: getFollowupQueue_def sampleQueue_def sampleSettings_def)
  have h5: "dropPolicy ?q = DropNew"
    by (simp add: getFollowupQueue_def sampleQueue_def sampleSettings_def)
  show ?thesis
    using enqueue_rejected_at_cap_still_writes [OF refl h2 h3 h4 h5 refl refl, of 5]
    by (simp add: sampleQueue_def sampleRun_def)
qed

subsection \<open>De-duplication\<close>

lemma isRunAlreadyQueued_messageId:
  "truthy (map_option trim (messageId r)) \<Longrightarrow>
   isRunAlreadyQueued r queue fallback =
     (\<exists>item \<in> set (items queue).
        map_option trim (messageId item) = map_option trim (messageId r) \<and> hasSameRouting r item)"
  by (simp add: isRunAlreadyQueued_def Let_def list_ex_iff)

lemma isRunAlreadyQueued_prompt:
  "\<not> truthy (map_option trim (messageId r)) \<Longrightarrow>
   isRunAlreadyQueued r queue fallback =
     (fallback \<and> (\<exists>item \<in> set (items queue). prompt item = prompt r \<and> hasSameRouting r item))"
  by (simp add: isRunAlreadyQueued_def Let_def list_ex_iff)

lemma enqueue_deduplicated:
  "isDeduplicated dedupeMode r (getFollowupQueue key settings Q) \<Longrightarrow>
   enqueueFollowupRun now key r settings dedupeMode Q =
     (False, Q(key \<mapsto> getFollowupQueue key settings Q))"
  by (simp add: enqueueFollowupRun_def Let_def)

lemma enqueue_not_deduplicated:
  "\<not> isDeduplicated dedupeMode r (getFollowupQueue key settings Q) \<Longrightarrow>
   enqueueFollowupRun now key r settings dedupeMode Q =
     enqueueFollowupRun now key r settings DedupeNone Q"
proof -
  assume a: "\<not> isDeduplicated dedupeMode r (getFollowupQueue key settings Q)"
  have b: "\<not> isDeduplicated DedupeNone r (getFollowupQueue key settings Q)"
    by (simp add: isDeduplicated_def)
  show ?thesis
    using a b by (simp add: enqueueFollowupRun_def Let_def)
qed

lemma enqueue_below_cap:
  "\<not> isDeduplicated dedupeMode r (getFollowupQueue key settings Q) \<Longrightarrow>
   \<not> (0 < cap (getFollowupQueue key settings Q) \<and>
      cap (getFollowupQueue key settings Q) \<le> int (length (items (getFollowupQueue key settings Q)))) \<Longrightarrow>
   enqueueFollowupRun now key r settings dedupeMode Q =
     (True, Q(key \<mapsto> (getFollowupQueue key settings Q)
        \<lparr>lastEnqueuedAt := now, lastRun := Some (run r),
         items := items (getFollowupQueue key settings Q) @ [r]\<rparr>))"
  by (auto simp add: enqueueFollowupRun_def Let_def)

text \<open>
  Claim C3, as amended. The queue before the test is the registered one with the call's
  settings applied; a message id counts when it is present and not blank, and ids are
  compared after trimming. In \<open>message-id\<close> mode an item with such an id whose id and route
  (channel, destination, account id, thread id) match a queued item is dropped and the
  queue is left as it was; any other item goes on as in \<open>none\<close> mode. In \<open>prompt\<close> mode an
  item with such an id is treated exactly as in \<open>message-id\<close> mode; only an item without
  one is dropped on an exact match of prompt and route. In \<open>none\<close> mode nothing is
  deduplicated: below the cap the item is appended whatever is queued.
\<close>

theorem dedupe_by_mode:
  fixes r :: "'r FollowupRun"
  assumes "queue = getFollowupQueue key settings Q"
    and "idMatch = (\<exists>item \<in> set (items queue).
           map_option trim (messageId item) = map_option trim (messageId r) \<and> hasSameRouting r item)"
    and "promptMatch = (\<exists>item \<in> set (items queue). prompt item = prompt r \<and> hasSameRouting r item)"
    and "hasId = truthy (map_option trim (messageId r))"
    and "enq = (\<lambda>dedupeMode. enqueueFollowupRun now key r settings dedupeMode Q)"
  shows "(hasId \<and> idMatch \<longrightarrow> enq DedupeMessageId = (False, Q(key \<mapsto> queue))) \<and>
         (\<not> (hasId \<and> idMatch) \<longrightarrow> enq DedupeMessageId = enq DedupeNone) \<and>
         (hasId \<longrightarrow> enq DedupePrompt = enq DedupeMessageId) \<and>
         (\<not> hasId \<and> promptMatch \<longrightarrow> enq DedupePrompt = (False, Q(key \<mapsto> queue))) \<and>
         (\<not> hasId \<and> \<not> promptMatch \<longrightarrow> enq DedupePrompt = enq DedupeNone) \<and>
         (\<not> (0 < cap queue \<and> cap queue \<le> int (length (items queue))) \<longrightarrow>
            enq DedupeNone =
              (True, Q(key \<mapsto> queue\<lparr>lastEnqueuedAt := now, lastRun := Some (run r),
                                      items := items queue @ [r]\<rparr>)))"
proof -
  have none: "\<not> isDeduplicated DedupeNone r queue"
    by (simp add: isDeduplicated_def)
  have mid: "isDeduplicated DedupeMessageId r queue = (hasId \<and> idMatch)"
    using assms(2,4) isRunAlreadyQueued_messageId [of r queue False]
      isRunAlreadyQueued_prompt [of r queue False]
    by (auto simp add: isDeduplicated_def)
  have pr: "isDeduplicated DedupePrompt r queue = (if hasId then idMatch else promptMatch)"
    using assms(2,3,4) isRunAlreadyQueued_messageId [of r queue True]
      isRunAlreadyQueued_prompt [of r queue True]
    by (auto simp add: isDeduplicated_def)
  have c1: "hasId \<and> idMatch \<longrightarrow> enq DedupeMessageId = (False, Q(key \<mapsto> queue))"
    using mid enqueue_deduplicated [of DedupeMessageId r key settings Q now] assms(1,5) by simp
  have c2: "\<not> (hasId \<and> idMatch) \<longrightarrow> enq DedupeMessageId = enq DedupeNone"
    using mid enqueue_not_deduplicated [of DedupeMessageId r key settings Q now] assms(1,5) by simp
  have c3: "hasId \<longrightarrow> enq DedupePrompt = enq DedupeMessageId"
  proof
    assume h: hasId
    show "enq DedupePrompt = enq DedupeMessageId"
    proof (cases idMatch)
      case True
      then show ?thesis
        using h mid pr enqueue_deduplicated [of DedupeMessageId r key settings Q now]
          enqueue_deduplicated [of DedupePrompt r key settings Q now] assms(1,5) by simp
    next
      case False
      then show ?thesis
        using h mid pr enqueue_not_deduplicated [of DedupeMessageId r key settings Q now]
          enqueue_not_deduplicated [of DedupePrompt r key settings Q now] assms(1,5) by simp
    qed
  qed
  have c4: "\<not> hasId \<and> promptMatch \<longrightarrow> enq DedupePrompt = (False, Q(key \<mapsto> queue))"
    using pr enqueue_deduplicated [of DedupePrompt r key settings Q now] assms(1,5) by simp
  have c5: "\<not> hasId \<and> \<not> promptMatch \<longrightarrow> enq DedupePrompt = enq DedupeNone"
    using pr enqueue_not_deduplicated [of DedupePrompt r key settings Q now] assms(1,5) by simp
  have c6: "\<not> (0 < cap queue \<and> cap queue \<le> int (length (items queue))) \<longrightarrow>
            enq DedupeNone =
              (True, Q(key \<mapsto> queue\<lparr>lastEnqueuedAt := now, lastRun := Some (run r),
                                      items := items queue @ [r]\<rparr>))"
    using none enqueue_below_cap [of DedupeNone r key settings Q now] assms(1,5) by simp
  from c1 c2 c3 c4 c5 c6 show ?thesis by blast
qed

theorem dedupe_by_mode_witness:
  "truthy (map_option trim (messageId (sampleRun ''again'' (Some ''m1'') (Some ''slack'') (Some ''C1'')))) \<and>
   enqueueFollowupRun 5 (lit ''k'') (sampleRun ''again'' (Some ''m1'') (Some ''slack'') (Some ''C1''))
     (sampleSettings Followup) DedupeMessageId
     [lit ''k'' \<mapsto> sampleQueue Followup 20 Summarize
        [sampleRun ''first'' (Some ''m1'') (Some ''slack'') (Some ''C1'')]]
   = (False, [lit ''k'' \<mapsto> sampleQueue Followup 20 Summarize
        [sampleRun ''first'' (Some ''m1'') (Some ''slack'') (Some ''C1'')]])"
proof -
  let ?r = "sampleRun ''again'' (Some ''m1'') (Some ''slack'') (Some ''C1'')"
  let ?Q = "[lit ''k'' \<mapsto> sampleQueue Followup 20 Summarize
        [sampleRun ''first'' (Some ''m1'') (Some ''slack'') (Some ''C1'')]]"
  let ?q = "getFollowupQueue (lit ''k'') (sampleSettings Followup) ?Q"
  have q: "?q = sampleQueue Followup 20 Summarize
        [sampleRun ''first'' (Some ''m1'') (Some ''slack'') (Some ''C1'')]"
    by (simp add: getFollowupQueue_def sampleQueue_def sampleSettings_def)
  have t: "trim (lit ''m1'') = lit ''m1''"
    by (simp add: trim_def trimStart_def trimEnd_def lit_def isWhitespace_def)
  have hasId: "truthy (map_option trim (messageId ?r))"
    by (simp add: sampleRun_def truthy_def t) (simp add: lit_def)
  have idMatch: "\<exists>item \<in> set (items ?q).
           map_option trim (messageId item) = map_option trim (messageId ?r) \<and> hasSameRouting ?r item"
    by (simp add: q) (simp add: sampleQueue_def sampleRun_def hasSameRouting_def)
  show ?thesis
    using dedupe_by_mode [OF refl refl refl refl refl, of ?r "lit ''k''" "sampleSettings Followup" ?Q 5]
      hasId idMatch q
    by simp
qed

text \<open>The claim as stated fails in \<open>prompt\<close> mode: an item whose prompt and route match a
  queued item exactly, but which carries another message id, is appended.\<close>

theorem prompt_mode_dedupes_by_id_counterexample:
  "prompt (sampleRun ''hi'' (Some ''m2'') (Some ''slack'') (Some ''C1'')) =
     prompt (sampleRun ''hi'' (Some ''m1'') (Some ''slack'') (Some ''C1'')) \<and>
   hasSameRouting (sampleRun ''hi'' (Some ''m2'') (Some ''slack'') (Some ''C1''))
     (sampleRun ''hi'' (Some ''m1'') (Some ''slack'') (Some ''C1'')) \<and>
   fst (enqueueFollowupRun 5 (lit ''k'') (sampleRun ''hi'' (Some ''m2'') (Some ''slack'') (Some ''C1''))
     (sampleSettings Followup) DedupePrompt
     [lit ''k'' \<mapsto> sampleQueue Followup 20 Summarize
        [sampleRun ''hi'' (Some ''m1'') (Some ''slack'') (Some ''C1'')]]) = True \<and>
   items (the (snd (enqueueFollowupRun 5 (lit ''k'') (sampleRun ''hi'' (Some ''m2'') (Some ''slack'') (Some ''C1''))
     (sampleSettings Followup) DedupePrompt
     [lit ''k'' \<mapsto> sampleQueue Followup 20 Summarize
        [sampleRun ''hi'' (Some ''m1'') (Some ''slack'') (Some ''C1'')]]) (lit ''k''))) =
     [sampleRun ''hi'' (Some ''m1'') (Some ''slack'') (Some ''C1''),
      sampleRun ''hi'' (Some ''m2'') (Some ''slack'') (Some ''C1'')]"
proof -
  have t1: "trim (lit ''m1'') = lit ''m1''" and t2: "trim (lit ''m2'') = lit ''m2''"
    by (simp_all add: trim_def trimStart_def trimEnd_def lit_def isWhitespace_def)
  have ne: "lit ''m1'' \<noteq> lit ''m2''" "lit ''m2'' \<noteq> []"
    by (simp_all add: lit_def)
  show ?thesis
    by (simp add: enqueueFollowupRun_def getFollowupQueue_def isDeduplicated_def
        isRunAlreadyQueued_def hasSameRouting_def sampleRun_def sampleQueue_def
        sampleSettings_def truthy_def t1 t2 ne Let_def)
qed

subsection \<open>What a drain passes to the executor\<close>




subsection \<open>The drop policies\<close>


lemma drainSteps_Left_drainLoop:
  "drainSteps R ex clk n f q calls = Exited q2 calls2 \<Longrightarrow>
   drainLoop R ex clk f q calls = Some (q2, calls2)"
proof (induction n arbitrary: f q calls)
  case 0
  then show ?case by simp
next
  case (Suc n)
  show ?case
  proof (cases "0 < length (items q) \<or> 0 < droppedCount q")
    case False
    with Suc.prems show ?thesis by (subst drainLoop.simps) auto
  next
    case True
    show ?thesis
    proof (cases "drainPass R (clk (length calls)) f q")
      case (Break q1)
      with True Suc.prems show ?thesis by (subst drainLoop.simps) auto
    next
      case (Call f1 q1 c)
      show ?thesis
      proof (cases "ex (length calls) c")
        case False
        with True Call Suc.prems show ?thesis by (subst drainLoop.simps) auto
      next
        case ok: True
        with True Call Suc.prems
        have "drainSteps R ex clk n f1 q1 (calls @ [c]) = Exited q2 calls2" by auto
        from Suc.IH [OF this] True Call ok show ?thesis
          by (subst drainLoop.simps) auto
      qed
    qed
  qed
qed

lemma drainLoop_drainSteps:
  assumes "drainLoop R ex clk f q calls = Some y"
  shows "\<exists>n. drainSteps R ex clk n f q calls = Exited (fst y) (snd y)"
proof (rule drainLoop.raw_induct
    [OF _ assms, where P = "\<lambda>R ex clk f q calls y.
           \<exists>n. drainSteps R ex clk n f q calls = Exited (fst y) (snd y)"])
  fix loop R ex clk f q calls y
  assume IH: "\<And>R ex clk f q calls y. loop R ex clk f q calls = Some y \<Longrightarrow>
                \<exists>n. drainSteps R ex clk n f q calls = Exited (fst y) (snd y)"
    and eq: "(if 0 < length (items q) \<or> 0 < droppedCount q
              then case drainPass R (clk (length calls)) f q of
                     Break queue1 \<Rightarrow> Some (queue1, calls)
                   | Call force1 queue1 r \<Rightarrow>
                       if ex (length calls) r then loop R ex clk force1 queue1 (calls @ [r])
                       else Some (queue1, calls @ [r])
              else Some (q, calls)) = Some y"
  show "\<exists>n. drainSteps R ex clk n f q calls = Exited (fst y) (snd y)"
  proof (cases "0 < length (items q) \<or> 0 < droppedCount q")
    case False
    with eq have "y = (q, calls)" by auto
    with False have "drainSteps R ex clk (Suc 0) f q calls = Exited (fst y) (snd y)" by auto
    then show ?thesis by blast
  next
    case True
    show ?thesis
    proof (cases "drainPass R (clk (length calls)) f q")
      case (Break q1)
      with True eq have "y = (q1, calls)" by auto
      with True Break have "drainSteps R ex clk (Suc 0) f q calls = Exited (fst y) (snd y)"
        by auto
      then show ?thesis by blast
    next
      case (Call f1 q1 c)
      show ?thesis
      proof (cases "ex (length calls) c")
        case False
        with True Call eq have "y = (q1, calls @ [c])" by auto
        with True Call False
        have "drainSteps R ex clk (Suc 0) f q calls = Exited (fst y) (snd y)" by auto
        then show ?thesis by blast
      next
        case ok: True
        with True Call eq have "loop R ex clk f1 q1 (calls @ [c]) = Some y" by auto
        from IH [OF this] obtain n where
          "drainSteps R ex clk n f1 q1 (calls @ [c]) = Exited (fst y) (snd y)" by blast
        with True Call ok
        have "drainSteps R ex clk (Suc n) f q calls = Exited (fst y) (snd y)" by auto
        then show ?thesis by blast
      qed
    qed
  qed
qed









subsection \<open>Collect mode\<close>

lemma crossChannelScan_char:
  assumes "distinct keys"
  shows "crossChannelScan R its keys unk =
     ((\<exists>x \<in> set its. \<not> isUnkeyed x \<and> \<not> completeRoute R x) \<or>
      (set keys \<union> routeKey ` {x \<in> set its. \<not> isUnkeyed x} \<noteq> {} \<and>
       (unk \<or> (\<exists>x \<in> set its. isUnkeyed x) \<or>
        (\<exists>a \<in> set keys \<union> routeKey ` {x \<in> set its. \<not> isUnkeyed x}.
         \<exists>b \<in> set keys \<union> routeKey ` {x \<in> set its. \<not> isUnkeyed x}. a \<noteq> b))))"
  using assms
proof (induction its arbitrary: keys unk)
  case Nil
  have "(1 < length keys) = (\<exists>a \<in> set keys. \<exists>b \<in> set keys. a \<noteq> b)"
  proof (cases keys)
    case Nil
    then show ?thesis by simp
  next
    case (Cons k ks)
    show ?thesis
    proof (cases ks)
      case Nil
      with Cons show ?thesis by simp
    next
      case (Cons k2 ks2)
      with \<open>keys = k # ks\<close> Nil.prems have "k \<noteq> k2" by auto
      with Cons \<open>keys = k # ks\<close> show ?thesis by auto
    qed
  qed
  then show ?case by auto
next
  case (Cons item rest)
  show ?case
  proof (cases "isUnkeyed item")
    case True
    have "crossChannelScan R (item # rest) keys unk = crossChannelScan R rest keys True"
      using True by simp
    also have "\<dots> = ((\<exists>x \<in> set rest. \<not> isUnkeyed x \<and> \<not> completeRoute R x) \<or>
      (set keys \<union> routeKey ` {x \<in> set rest. \<not> isUnkeyed x} \<noteq> {} \<and>
       (True \<or> (\<exists>x \<in> set rest. isUnkeyed x) \<or>
        (\<exists>a \<in> set keys \<union> routeKey ` {x \<in> set rest. \<not> isUnkeyed x}.
         \<exists>b \<in> set keys \<union> routeKey ` {x \<in> set rest. \<not> isUnkeyed x}. a \<noteq> b))))"
      using Cons.IH [OF Cons.prems] by blast
    finally show ?thesis
      using True by (auto simp add: completeRoute_def)
  next
    case keyed: False
    show ?thesis
    proof (cases "completeRoute R item")
      case False
      with keyed have "crossChannelScan R (item # rest) keys unk = True"
        by (auto simp add: completeRoute_def)
      with keyed False show ?thesis by auto
    next
      case True
      then have "crossChannelScan R (item # rest) keys unk =
                   crossChannelScan R rest (List.insert (routeKey item) keys) unk"
        using keyed by (auto simp add: completeRoute_def)
      moreover have "distinct (List.insert (routeKey item) keys)"
        using Cons.prems by simp
      moreover have "set (List.insert (routeKey item) keys) \<union> routeKey ` {x \<in> set rest. \<not> isUnkeyed x}
                   = set keys \<union> routeKey ` {x \<in> set (item # rest). \<not> isUnkeyed x}"
        using keyed by auto
      ultimately show ?thesis
        using Cons.IH [of "List.insert (routeKey item) keys" unk] True keyed
        by (simp del: set_simps List.set_insert) (auto)
    qed
  qed
qed

lemma hasCrossChannelItems_sameRoute:
  "hasCrossChannelItems R its = (\<not> sameRoute R its)"
proof -
  have "hasCrossChannelItems R its =
     ((\<exists>x \<in> set its. \<not> isUnkeyed x \<and> \<not> completeRoute R x) \<or>
      (routeKey ` {x \<in> set its. \<not> isUnkeyed x} \<noteq> {} \<and>
       ((\<exists>x \<in> set its. isUnkeyed x) \<or>
        (\<exists>a \<in> routeKey ` {x \<in> set its. \<not> isUnkeyed x}.
         \<exists>b \<in> routeKey ` {x \<in> set its. \<not> isUnkeyed x}. a \<noteq> b))))"
    unfolding hasCrossChannelItems_def
    using crossChannelScan_char [of "[]" R its False] by simp
  also have "\<dots> = (\<not> sameRoute R its)"
    unfolding sameRoute_def list_all_iff completeRoute_def by blast
  finally show ?thesis .
qed


lemma drainPass_collect_forced:
  "mode q = Collect \<Longrightarrow> drainPass R now True q = shiftNext True q"
  by (simp add: drainPass_def)

lemma drainPass_collect_cross:
  "mode q = Collect \<Longrightarrow> hasCrossChannelItems R (items q) \<Longrightarrow>
   drainPass R now f q = shiftNext True q"
  by (cases f) (simp_all add: drainPass_def shiftNext_def)

lemma drainPass_collect_merge:
  "mode q = Collect \<Longrightarrow> \<not> hasCrossChannelItems R (items q) \<Longrightarrow> items q \<noteq> [] \<Longrightarrow>
   drainPass R now False q =
     Call False (snd (buildSummaryPrompt (q\<lparr>items := []\<rparr>)))
       (collectRun now (items q) (fst (buildSummaryPrompt (q\<lparr>items := []\<rparr>)))
          (run (last (items q))))"
  by (simp add: drainPass_def Let_def split: prod.splits)

lemma items_buildSummaryPrompt: "items (snd (buildSummaryPrompt q)) = items q"
  by (simp add: buildSummaryPrompt_def Let_def)

lemma drainLoop_per_item:
  assumes "mode q = Collect" and "f \<or> hasCrossChannelItems R (items q)"
  shows "drainLoop R ex clk f q calls =
           Some (q\<lparr>items := drop (perItemCount ex (length calls) (items q)) (items q)\<rparr>,
                 calls @ take (perItemCount ex (length calls) (items q)) (items q))"
  using assms
proof (induction "items q" arbitrary: q calls f)
  case Nil
  then have e: "items q = []" by simp
  have p: "drainPass R (clk (length calls)) f q = Break q"
    using Nil.prems e
    by (cases f) (simp_all add: drainPass_def shiftNext_def)
  have "q\<lparr>items := []\<rparr> = q" using e by simp
  then show ?case
    using e p by (subst drainLoop.simps) simp
next
  case (Cons x xs)
  then have e: "items q = x # xs" by simp
  have p: "drainPass R (clk (length calls)) f q = Call True (q\<lparr>items := xs\<rparr>) x"
    using Cons.prems e
    by (cases f) (simp_all add: drainPass_def shiftNext_def)
  show ?case
  proof (cases "ex (length calls) x")
    case False
    then show ?thesis
      using e p by (subst drainLoop.simps) simp
  next
    case True
    have ih: "drainLoop R ex clk True (q\<lparr>items := xs\<rparr>) (calls @ [x]) =
           Some (q\<lparr>items := xs\<rparr>\<lparr>items :=
                    drop (perItemCount ex (length (calls @ [x])) xs) xs\<rparr>,
                 (calls @ [x]) @ take (perItemCount ex (length (calls @ [x])) xs) xs)"
      using Cons.hyps(1) [of "q\<lparr>items := xs\<rparr>" True "calls @ [x]"] Cons.prems(1) by simp
    show ?thesis
      using e p True ih by (subst drainLoop.simps) simp
  qed
qed


lemma trimEnd_append:
  "trimEnd p \<noteq> [] \<Longrightarrow> trimEnd (pre @ p) = pre @ trimEnd p"
proof -
  assume "trimEnd p \<noteq> []"
  then have "dropWhile isWhitespace (rev p) \<noteq> []" by (simp add: trimEnd_def)
  then obtain x where "x \<in> set (rev p)" and "\<not> isWhitespace x"
    by (metis dropWhile_eq_Nil_conv)
  then have "dropWhile isWhitespace (rev p @ rev pre) = dropWhile isWhitespace (rev p) @ rev pre"
    by (rule dropWhile_append1)
  then show ?thesis by (simp add: trimEnd_def)
qed

lemma collectBlock_prompt:
  "trimEnd (prompt item) \<noteq> [] \<Longrightarrow>
   collectBlock idx item =
     lit ''---'' @ [10] @ lit ''Queued #'' @ showNat (idx + 1) @ [10] @ trimEnd (prompt item)"
proof -
  assume a: "trimEnd (prompt item) \<noteq> []"
  let ?pre = "lit ''---'' @ [10] @ lit ''Queued #'' @ showNat (idx + 1) @ [10]"
  have s: "trimStart (?pre @ prompt item) = ?pre @ prompt item"
    by (simp add: trimStart_def lit_def isWhitespace_def)
  have "collectBlock idx item = trimEnd (?pre @ prompt item)"
    using s by (simp add: collectBlock_def trim_def)
  also have "\<dots> = ?pre @ trimEnd (prompt item)"
    using a by (rule trimEnd_append)
  finally show ?thesis by simp
qed

lemma drainLoop_merge:
  assumes "mode q = Collect" and "items q \<noteq> []" and "\<not> hasCrossChannelItems R (items q)"
    and "dropPolicy q = Summarize \<or> droppedCount q = 0"
  shows "drainLoop R ex clk False q calls =
           Some (snd (buildSummaryPrompt (q\<lparr>items := []\<rparr>)),
                 calls @ [collectRun (clk (length calls)) (items q)
                            (fst (buildSummaryPrompt (q\<lparr>items := []\<rparr>)))
                            (run (last (items q)))])"
proof -
  let ?q1 = "snd (buildSummaryPrompt (q\<lparr>items := []\<rparr>))"
  let ?c = "collectRun (clk (length calls)) (items q)
                            (fst (buildSummaryPrompt (q\<lparr>items := []\<rparr>)))
                            (run (last (items q)))"
  have p: "drainPass R (clk (length calls)) False q = Call False ?q1 ?c"
    using assms(1) assms(3) assms(2) by (rule drainPass_collect_merge)
  have i1: "items ?q1 = []" by (simp add: items_buildSummaryPrompt)
  have d1: "droppedCount ?q1 = 0"
    using assms(4) by (auto simp add: buildSummaryPrompt_def Let_def)
  have stop: "drainLoop R ex clk False ?q1 (calls @ [?c]) = Some (?q1, calls @ [?c])"
    using i1 d1 by (subst drainLoop.simps) simp
  show ?thesis
    using assms(2) p stop by (subst drainLoop.simps) simp
qed

lemma perItemCount_pos: "xs \<noteq> [] \<Longrightarrow> 0 < perItemCount ex i xs"
  by (cases xs) simp_all

lemma perItemCount_all: "(\<forall>i r. ex i r) \<Longrightarrow> perItemCount ex i xs = length xs"
  by (induction xs arbitrary: i) simp_all

lemma drainTask_merge:
  assumes "mode q = Collect" and "items q \<noteq> []" and "\<not> hasCrossChannelItems R (items q)"
    and "dropPolicy q = Summarize \<or> droppedCount q = 0"
  shows "drainTask R ex clk q calls =
           Some (Discarded,
                 calls @ [collectRun (clk (length calls)) (items q)
                            (fst (buildSummaryPrompt (q\<lparr>items := []\<rparr>)))
                            (run (last (items q)))])"
proof -
  let ?q = "q\<lparr>draining := True\<rparr>"
  let ?q1 = "snd (buildSummaryPrompt (?q\<lparr>items := []\<rparr>))"
  have l: "drainLoop R ex clk False ?q calls =
           Some (?q1,
                 calls @ [collectRun (clk (length calls)) (items ?q)
                            (fst (buildSummaryPrompt (?q\<lparr>items := []\<rparr>)))
                            (run (last (items ?q)))])"
    using drainLoop_merge [where q = ?q and R = R and ex = ex and clk = clk and calls = calls]
      assms by simp
  have f: "fst (buildSummaryPrompt (?q\<lparr>items := []\<rparr>)) = fst (buildSummaryPrompt (q\<lparr>items := []\<rparr>))"
    by (simp add: buildSummaryPrompt_def Let_def)
  have i1: "items ?q1 = []" by (simp add: items_buildSummaryPrompt)
  have d1: "droppedCount ?q1 = 0"
    using assms(4) by (auto simp add: buildSummaryPrompt_def Let_def)
  have fin: "drainFinally ?q1 = Discarded"
    using i1 d1 by (simp add: drainFinally_def Let_def)
  show ?thesis
    using l f fin by (simp add: drainTask_def)
qed

text \<open>
  Claim C1, as amended. In collect mode, with items queued: when no queued item carries a
  route, or every queued item carries a complete route (a routable channel and a
  destination) and all have one route key, a pass of a drain that has not switched merges
  all queued items into a single executor call and leaves none queued; its prompt is the
  header, then the pending drop-summary if there is one, then one block per item in
  arrival order (the block ends with the item's prompt, trailing white space removed), and
  when the drop policy is \<open>summarize\<close> or nothing has been dropped, the whole loop issues
  just that call.
  In every other case (an item with an incomplete or non-routable route, routed items
  mixed with unrouted ones, or more than one route key) the loop passes the queued items
  to the executor one by one, in order, all of them when no call rejects and those up to
  the first rejected call otherwise; and a pass of a drain that has switched takes one
  item, whatever is queued, so that nothing is merged again within that loop.
  A rejected call ends the loop. When items are left then, the \<open>finally\<close> block reschedules
  the drain, and the loop it starts has not switched: if the items left can be merged,
  and the drop policy is \<open>summarize\<close> or nothing has been dropped, it passes them to the
  executor as one merged call and the queue is discarded.
\<close>

theorem collect_drain_merges_or_splits:
  assumes "mode q = Collect" and "items q \<noteq> []"
    and "summary = fst (buildSummaryPrompt (q\<lparr>items := []\<rparr>))"
    and "q1 = snd (buildSummaryPrompt (q\<lparr>items := []\<rparr>))"
    and "merged = (\<lambda>now. collectRun now (items q) summary (run (last (items q))))"
    and "k = perItemCount ex (length calls) (items q)"
  shows "(sameRoute R (items q) \<longrightarrow>
            drainPass R now False q = Call False q1 (merged now) \<and> items q1 = [] \<and>
            prompt (merged now) =
              joinWith [10, 10]
                ([lit ''[Queued messages while agent was busy]'']
                 @ (if truthy summary then [the summary] else [])
                 @ map (\<lambda>(idx, item). collectBlock idx item) (enumerate 0 (items q))) \<and>
            (dropPolicy q = Summarize \<or> droppedCount q = 0 \<longrightarrow>
               drainLoop R ex clk False q calls =
                 Some (q1, calls @ [merged (clk (length calls))]))) \<and>
         (\<forall>idx item. trimEnd (prompt item) \<noteq> [] \<longrightarrow>
            collectBlock idx item =
              lit ''---'' @ [10] @ lit ''Queued #'' @ showNat (idx + 1) @ [10]
              @ trimEnd (prompt item)) \<and>
         (\<not> sameRoute R (items q) \<longrightarrow>
            drainLoop R ex clk False q calls =
              Some (q\<lparr>items := drop k (items q)\<rparr>, calls @ take k (items q)) \<and>
            0 < k \<and> ((\<forall>i r. ex i r) \<longrightarrow> k = length (items q))) \<and>
         (\<not> sameRoute R (items q) \<and> k < length (items q) \<longrightarrow>
            drainFinally (q\<lparr>items := drop k (items q)\<rparr>) =
              Rescheduled (q\<lparr>items := drop k (items q), draining := False\<rparr>) \<and>
            (sameRoute R (drop k (items q)) \<and> (dropPolicy q = Summarize \<or> droppedCount q = 0) \<longrightarrow>
               drainTask R ex clk (q\<lparr>items := drop k (items q), draining := False\<rparr>)
                 (calls @ take k (items q)) =
                 Some (Discarded,
                       calls @ take k (items q) @
                         [collectRun (clk (length calls + k)) (drop k (items q)) summary
                            (run (last (items q)))]))) \<and>
         drainPass R now True q = shiftNext True q"
proof -
  have a: "sameRoute R (items q) \<longrightarrow>
            drainPass R now False q = Call False q1 (merged now) \<and> items q1 = [] \<and>
            prompt (merged now) =
              joinWith [10, 10]
                ([lit ''[Queued messages while agent was busy]'']
                 @ (if truthy summary then [the summary] else [])
                 @ map (\<lambda>(idx, item). collectBlock idx item) (enumerate 0 (items q))) \<and>
            (dropPolicy q = Summarize \<or> droppedCount q = 0 \<longrightarrow>
               drainLoop R ex clk False q calls =
                 Some (q1, calls @ [merged (clk (length calls))]))"
  proof
    assume "sameRoute R (items q)"
    then have nc: "\<not> hasCrossChannelItems R (items q)"
      by (simp add: hasCrossChannelItems_sameRoute)
    have p: "drainPass R now False q = Call False q1 (merged now)"
      using drainPass_collect_merge [OF assms(1) nc assms(2), of now] assms(3,4,5) by simp
    have i: "items q1 = []"
      using assms(4) by (simp add: items_buildSummaryPrompt)
    have pr: "prompt (merged now) =
              joinWith [10, 10]
                ([lit ''[Queued messages while agent was busy]'']
                 @ (if truthy summary then [the summary] else [])
                 @ map (\<lambda>(idx, item). collectBlock idx item) (enumerate 0 (items q)))"
      using assms(5) by (simp add: collectRun_def buildCollectPrompt_def Let_def)
    have l: "dropPolicy q = Summarize \<or> droppedCount q = 0 \<longrightarrow>
               drainLoop R ex clk False q calls =
                 Some (q1, calls @ [merged (clk (length calls))])"
      using drainLoop_merge [OF assms(1,2) nc, of ex clk calls] assms(3,4,5) by simp
    from p i pr l show "drainPass R now False q = Call False q1 (merged now) \<and> items q1 = [] \<and>
            prompt (merged now) =
              joinWith [10, 10]
                ([lit ''[Queued messages while agent was busy]'']
                 @ (if truthy summary then [the summary] else [])
                 @ map (\<lambda>(idx, item). collectBlock idx item) (enumerate 0 (items q))) \<and>
            (dropPolicy q = Summarize \<or> droppedCount q = 0 \<longrightarrow>
               drainLoop R ex clk False q calls =
                 Some (q1, calls @ [merged (clk (length calls))]))"
      by blast
  qed
  have b: "\<forall>idx item. trimEnd (prompt item) \<noteq> [] \<longrightarrow>
            collectBlock idx item =
              lit ''---'' @ [10] @ lit ''Queued #'' @ showNat (idx + 1) @ [10]
              @ trimEnd (prompt item)"
    using collectBlock_prompt by blast
  have c: "\<not> sameRoute R (items q) \<longrightarrow>
            drainLoop R ex clk False q calls =
              Some (q\<lparr>items := drop k (items q)\<rparr>, calls @ take k (items q)) \<and>
            0 < k \<and> ((\<forall>i r. ex i r) \<longrightarrow> k = length (items q))"
  proof
    assume "\<not> sameRoute R (items q)"
    then have cr: "hasCrossChannelItems R (items q)"
      by (simp add: hasCrossChannelItems_sameRoute)
    have l: "drainLoop R ex clk False q calls =
              Some (q\<lparr>items := drop k (items q)\<rparr>, calls @ take k (items q))"
      using drainLoop_per_item [OF assms(1), of False R ex clk calls] cr assms(6) by simp
    have k0: "0 < k" using assms(2,6) perItemCount_pos by blast
    have ka: "(\<forall>i r. ex i r) \<longrightarrow> k = length (items q)"
      using assms(6) perItemCount_all [of ex "length calls" "items q"] by blast
    from l k0 ka show "drainLoop R ex clk False q calls =
              Some (q\<lparr>items := drop k (items q)\<rparr>, calls @ take k (items q)) \<and>
            0 < k \<and> ((\<forall>i r. ex i r) \<longrightarrow> k = length (items q))"
      by blast
  qed
  have d: "drainPass R now True q = shiftNext True q"
    using assms(1) by (rule drainPass_collect_forced)
  have e: "(\<not> sameRoute R (items q) \<and> k < length (items q) \<longrightarrow>
            drainFinally (q\<lparr>items := drop k (items q)\<rparr>) =
              Rescheduled (q\<lparr>items := drop k (items q), draining := False\<rparr>) \<and>
            (sameRoute R (drop k (items q)) \<and> (dropPolicy q = Summarize \<or> droppedCount q = 0) \<longrightarrow>
               drainTask R ex clk (q\<lparr>items := drop k (items q), draining := False\<rparr>)
                 (calls @ take k (items q)) =
                 Some (Discarded,
                       calls @ take k (items q) @
                         [collectRun (clk (length calls + k)) (drop k (items q)) summary
                            (run (last (items q)))])))"
  proof (intro impI)
    assume h: "\<not> sameRoute R (items q) \<and> k < length (items q)"
    let ?rest = "drop k (items q)"
    let ?qk = "q\<lparr>items := ?rest\<rparr>"
    have ne: "?rest \<noteq> []" using h by simp
    have fin: "drainFinally ?qk = Rescheduled (q\<lparr>items := ?rest, draining := False\<rparr>)"
      using ne by (simp add: drainFinally_def Let_def)
    have mg: "sameRoute R ?rest \<and> (dropPolicy q = Summarize \<or> droppedCount q = 0) \<longrightarrow>
               drainTask R ex clk (q\<lparr>items := ?rest, draining := False\<rparr>)
                 (calls @ take k (items q)) =
                 Some (Discarded,
                       calls @ take k (items q) @
                         [collectRun (clk (length calls + k)) ?rest summary
                            (run (last (items q)))])"
    proof
      assume s: "sameRoute R ?rest \<and> (dropPolicy q = Summarize \<or> droppedCount q = 0)"
      let ?q' = "q\<lparr>items := ?rest, draining := False\<rparr>"
      have nc: "\<not> hasCrossChannelItems R (items ?q')"
        using s by (simp add: hasCrossChannelItems_sameRoute)
      have lk: "length (calls @ take k (items q)) = length calls + k"
        using h by simp
      have ls: "last ?rest = last (items q)" using ne by simp
      have sm: "fst (buildSummaryPrompt (?q'\<lparr>items := []\<rparr>)) = summary"
        using assms(3) by (simp add: buildSummaryPrompt_def Let_def)
      have "drainTask R ex clk ?q' (calls @ take k (items q)) =
              Some (Discarded,
                    (calls @ take k (items q)) @
                      [collectRun (clk (length (calls @ take k (items q)))) (items ?q')
                         (fst (buildSummaryPrompt (?q'\<lparr>items := []\<rparr>)))
                         (run (last (items ?q')))])"
        using drainTask_merge [where q = ?q' and R = R and ex = ex and clk = clk
            and calls = "calls @ take k (items q)"] assms(1) ne nc s
        by simp
      then show "drainTask R ex clk ?q' (calls @ take k (items q)) =
                 Some (Discarded,
                       calls @ take k (items q) @
                         [collectRun (clk (length calls + k)) ?rest summary
                            (run (last (items q)))])"
        using lk ls sm by simp
    qed
    from fin mg show "drainFinally ?qk =
              Rescheduled (q\<lparr>items := ?rest, draining := False\<rparr>) \<and>
            (sameRoute R ?rest \<and> (dropPolicy q = Summarize \<or> droppedCount q = 0) \<longrightarrow>
               drainTask R ex clk (q\<lparr>items := ?rest, draining := False\<rparr>)
                 (calls @ take k (items q)) =
                 Some (Discarded,
                       calls @ take k (items q) @
                         [collectRun (clk (length calls + k)) ?rest summary
                            (run (last (items q)))]))"
      by (intro conjI)
  qed
  from a b c e d show ?thesis by (intro conjI)
qed


theorem collect_drain_merges_or_splits_witness:
  "drainLoop (\<lambda>c. c = Some (lit ''slack'')) (\<lambda>i r. True) (\<lambda>i. 0) False
     (sampleQueue Collect 20 Summarize
        [sampleRun ''A'' None (Some ''slack'') (Some ''C1''),
         sampleRun ''B'' None (Some ''slack'') (Some ''C1''),
         sampleRun ''C'' None (Some ''slack'') (Some ''C1'')]) []
   = Some (sampleQueue Collect 20 Summarize [],
           [collectRun 0
              [sampleRun ''A'' None (Some ''slack'') (Some ''C1''),
               sampleRun ''B'' None (Some ''slack'') (Some ''C1''),
               sampleRun ''C'' None (Some ''slack'') (Some ''C1'')] None 7]) \<and>
   drainLoop (\<lambda>c. c = Some (lit ''slack'')) (\<lambda>i r. True) (\<lambda>i. 0) False
     (sampleQueue Collect 20 Summarize
        [sampleRun ''A'' None (Some ''slack'') (Some ''C1''),
         sampleRun ''B'' None (Some ''slack'') (Some ''C2'')]) []
   = Some (sampleQueue Collect 20 Summarize [],
           [sampleRun ''A'' None (Some ''slack'') (Some ''C1''),
            sampleRun ''B'' None (Some ''slack'') (Some ''C2'')]) \<and>
   drainLoop (\<lambda>c. c = Some (lit ''slack'')) (\<lambda>i r. i \<noteq> 0) (\<lambda>i. 0) False
     (sampleQueue Collect 20 Summarize
        [sampleRun ''A'' None (Some ''slack'') (Some ''C1''),
         sampleRun ''B'' None (Some ''slack'') (Some ''C2''),
         sampleRun ''C'' None (Some ''slack'') (Some ''C2'')]) []
   = Some (sampleQueue Collect 20 Summarize
             [sampleRun ''B'' None (Some ''slack'') (Some ''C2''),
              sampleRun ''C'' None (Some ''slack'') (Some ''C2'')],
           [sampleRun ''A'' None (Some ''slack'') (Some ''C1'')]) \<and>
   drainTask (\<lambda>c. c = Some (lit ''slack'')) (\<lambda>i r. i \<noteq> 0) (\<lambda>i. 0)
     (sampleQueue Collect 20 Summarize
        [sampleRun ''B'' None (Some ''slack'') (Some ''C2''),
         sampleRun ''C'' None (Some ''slack'') (Some ''C2'')])
     [sampleRun ''A'' None (Some ''slack'') (Some ''C1'')]
   = Some (Discarded,
           [sampleRun ''A'' None (Some ''slack'') (Some ''C1''),
            collectRun 0
              [sampleRun ''B'' None (Some ''slack'') (Some ''C2''),
               sampleRun ''C'' None (Some ''slack'') (Some ''C2'')] None 7])"
proof -
  let ?R = "\<lambda>c. c = Some (lit ''slack'')"
  let ?its = "[sampleRun ''A'' None (Some ''slack'') (Some ''C1''),
         sampleRun ''B'' None (Some ''slack'') (Some ''C1''),
         sampleRun ''C'' None (Some ''slack'') (Some ''C1'')]"
  let ?q = "sampleQueue Collect 20 Summarize ?its"
  let ?its2 = "[sampleRun ''A'' None (Some ''slack'') (Some ''C1''),
         sampleRun ''B'' None (Some ''slack'') (Some ''C2'')]"
  let ?q2 = "sampleQueue Collect 20 Summarize ?its2"
  have l: "lit ''C1'' \<noteq> []" "lit ''slack'' \<noteq> []" "lit ''C1'' \<noteq> lit ''C2''"
    by (simp_all add: lit_def)
  have same: "sameRoute ?R ?its"
    by (simp add: sameRoute_def completeRoute_def isUnkeyed_def sampleRun_def truthy_def l routeKey_def)
  have k12: "routeKey (sampleRun ''A'' None (Some ''slack'') (Some ''C1'')) \<noteq>
             routeKey (sampleRun ''B'' None (Some ''slack'') (Some ''C2''))"
    by (simp add: routeKey_def sampleRun_def orEmpty_def truthy_def l)
  have diff: "\<not> sameRoute ?R ?its2"
    using k12 by (simp add: sameRoute_def completeRoute_def isUnkeyed_def sampleRun_def truthy_def l)
  have m: "mode ?q = Collect" "items ?q = ?its" "dropPolicy ?q = Summarize"
    "buildSummaryPrompt (?q\<lparr>items := []\<rparr>) = (None, sampleQueue Collect 20 Summarize [])"
    by (simp_all add: sampleQueue_def buildSummaryPrompt_def)
  have m2: "mode ?q2 = Collect" "items ?q2 = ?its2"
    "?q2\<lparr>items := []\<rparr> = sampleQueue Collect 20 Summarize []"
    by (simp_all add: sampleQueue_def)
  have ne: "items ?q \<noteq> []" "items ?q2 \<noteq> []" by (simp_all add: sampleQueue_def)
  have r7: "run (sampleRun ''C'' None (Some ''slack'') (Some ''C1'')) = 7"
    by (simp add: sampleRun_def)
  have same': "sameRoute ?R (items ?q)" using same m(2) by simp
  have diff': "\<not> sameRoute ?R (items ?q2)" using diff m2(2) by simp
  have pol: "dropPolicy ?q = Summarize \<or> droppedCount ?q = 0" using m(3) by simp
  have all: "\<forall>i r. (\<lambda>i r. True) i (r :: nat FollowupRun)" by simp
  have "drainLoop ?R (\<lambda>i r. True) (\<lambda>i. 0) False ?q [] =
      Some (snd (buildSummaryPrompt (?q\<lparr>items := []\<rparr>)),
            [] @ [collectRun ((\<lambda>i. 0) (length [])) (items ?q)
                    (fst (buildSummaryPrompt (?q\<lparr>items := []\<rparr>))) (run (last (items ?q)))])"
    using collect_drain_merges_or_splits
      [where q = ?q and R = ?R and now = 0 and clk = "\<lambda>i. 0" and ex = "\<lambda>i r. True"
         and calls = "[]", OF m(1) ne(1) refl refl refl refl] same' pol
    by blast
  then have one: "drainLoop ?R (\<lambda>i r. True) (\<lambda>i. 0) False ?q [] =
      Some (sampleQueue Collect 20 Summarize [], [collectRun 0 ?its None 7])"
    using m r7 by simp
  have "drainLoop ?R (\<lambda>i r. True) (\<lambda>i. 0) False ?q2 [] =
      Some (?q2\<lparr>items := drop (length (items ?q2)) (items ?q2)\<rparr>,
            [] @ take (length (items ?q2)) (items ?q2))"
    using collect_drain_merges_or_splits
      [where q = ?q2 and R = ?R and now = 0 and clk = "\<lambda>i. 0" and ex = "\<lambda>i r. True"
         and calls = "[]", OF m2(1) ne(2) refl refl refl refl] diff' all
    by metis
  then have two: "drainLoop ?R (\<lambda>i r. True) (\<lambda>i. 0) False ?q2 [] =
      Some (sampleQueue Collect 20 Summarize [], ?its2)"
    using m2 by simp
  let ?A = "sampleRun ''A'' None (Some ''slack'') (Some ''C1'')"
  let ?rest = "[sampleRun ''B'' None (Some ''slack'') (Some ''C2''),
         sampleRun ''C'' None (Some ''slack'') (Some ''C2'')]"
  let ?q3 = "sampleQueue Collect 20 Summarize (?A # ?rest)"
  let ?ex = "\<lambda>(i::nat) (r :: nat FollowupRun). i \<noteq> 0"
  have l2: "lit ''C2'' \<noteq> []" by (simp add: lit_def)
  have k13: "routeKey ?A \<noteq> routeKey (sampleRun ''C'' None (Some ''slack'') (Some ''C2''))"
    by (simp add: routeKey_def sampleRun_def orEmpty_def truthy_def l)
  have m3: "mode ?q3 = Collect" "items ?q3 = ?A # ?rest" "dropPolicy ?q3 = Summarize"
    "items ?q3 \<noteq> []"
    by (simp_all add: sampleQueue_def)
  have diff3: "\<not> sameRoute ?R (items ?q3)"
    using k12 k13
    by (simp add: sampleQueue_def sameRoute_def completeRoute_def isUnkeyed_def sampleRun_def
        truthy_def l)
  have k1: "perItemCount ?ex (length []) (items ?q3) = 1"
    by (simp add: sampleQueue_def)
  have same3: "sameRoute ?R (drop 1 (items ?q3))"
    by (simp add: sampleQueue_def sameRoute_def completeRoute_def isUnkeyed_def sampleRun_def
        truthy_def l l2 routeKey_def)
  have sm3: "fst (buildSummaryPrompt (?q3\<lparr>items := []\<rparr>)) = None"
    by (simp add: sampleQueue_def buildSummaryPrompt_def)
  have q3k: "?q3\<lparr>items := drop 1 (items ?q3)\<rparr> = sampleQueue Collect 20 Summarize ?rest"
    "?q3\<lparr>items := drop 1 (items ?q3), draining := False\<rparr> = sampleQueue Collect 20 Summarize ?rest"
    by (simp_all add: sampleQueue_def)
  have r3: "run (last (items ?q3)) = 7" "take 1 (items ?q3) = [?A]"
    "drop 1 (items ?q3) = ?rest"
    by (simp_all add: sampleQueue_def sampleRun_def)
  note T3 = collect_drain_merges_or_splits
      [where q = ?q3 and R = ?R and now = 0 and clk = "\<lambda>i. 0" and ex = ?ex
         and calls = "[]" and k = 1, OF m3(1) m3(4) refl refl refl k1 [symmetric]]
  have len3: "1 < length (items ?q3)" by (simp add: sampleQueue_def)
  have pol3: "dropPolicy ?q3 = Summarize \<or> droppedCount ?q3 = 0" using m3(3) by simp
  note C3 = T3 [THEN conjunct2, THEN conjunct2, THEN conjunct1, THEN mp, OF diff3,
      THEN conjunct1]
  note E3 = T3 [THEN conjunct2, THEN conjunct2, THEN conjunct2, THEN conjunct1, THEN mp,
      OF conjI [OF diff3 len3], THEN conjunct2, THEN mp, OF conjI [OF same3 pol3]]
  have three: "drainLoop ?R ?ex (\<lambda>i. 0) False ?q3 [] =
      Some (sampleQueue Collect 20 Summarize ?rest, [?A])"
    using C3 q3k(1) r3(2) by simp
  have four: "drainTask ?R ?ex (\<lambda>i. 0) (sampleQueue Collect 20 Summarize ?rest) [?A] =
      Some (Discarded, [?A, collectRun 0 ?rest None 7])"
    using E3 q3k(2) r3 sm3 by simp
  from one two three four show ?thesis by simp
qed

text \<open>The claim as stated fails for items that share a route which is not complete: two
  items from the same channel with no destination are passed one by one.\<close>

theorem shared_incomplete_route_not_merged_counterexample:
  "hasSameRouting (sampleRun ''A'' None (Some ''slack'') None)
     (sampleRun ''B'' None (Some ''slack'') None) \<and>
   drainLoop (\<lambda>c. True) (\<lambda>i r. True) (\<lambda>i. 0) False
     (sampleQueue Collect 20 Summarize
        [sampleRun ''A'' None (Some ''slack'') None,
         sampleRun ''B'' None (Some ''slack'') None]) []
   = Some (sampleQueue Collect 20 Summarize [],
           [sampleRun ''A'' None (Some ''slack'') None,
            sampleRun ''B'' None (Some ''slack'') None])"
proof -
  let ?its = "[sampleRun ''A'' None (Some ''slack'') None,
         sampleRun ''B'' None (Some ''slack'') None]"
  let ?q = "sampleQueue Collect 20 Summarize ?its"
  have l: "lit ''slack'' \<noteq> []" by (simp add: lit_def)
  have cr: "hasCrossChannelItems (\<lambda>c. True) (items ?q)"
    by (simp add: hasCrossChannelItems_def sampleQueue_def isUnkeyed_def sampleRun_def truthy_def l)
  have m: "mode ?q = Collect" by (simp add: sampleQueue_def)
  have "drainLoop (\<lambda>c. True) (\<lambda>i r. True) (\<lambda>i. 0) False ?q [] =
          Some (?q\<lparr>items := drop (perItemCount (\<lambda>i r. True) (length []) (items ?q)) (items ?q)\<rparr>,
                 [] @ take (perItemCount (\<lambda>i r. True) (length []) (items ?q)) (items ?q))"
    using drainLoop_per_item [where q = ?q and R = "\<lambda>c. True" and f = False
        and ex = "\<lambda>i r. True" and clk = "\<lambda>i. 0" and calls = "[]"] m cr
    by simp
  then have "drainLoop (\<lambda>c. True) (\<lambda>i r. True) (\<lambda>i. 0) False ?q [] =
          Some (sampleQueue Collect 20 Summarize [], ?its)"
    by (simp add: sampleQueue_def)
  then show ?thesis by (simp add: hasSameRouting_def sampleRun_def)
qed

subsection \<open>The overflow summary\<close>

lemma joinWith_Cons_nonempty: "x \<noteq> [] \<Longrightarrow> joinWith sep (x # xs) \<noteq> []"
  by (cases xs) simp_all

lemma buildSummaryPrompt_pending:
  assumes "0 < droppedCount q" and "dropPolicy q = Summarize"
  shows "buildSummaryPrompt q =
           (Some (joinWith [10]
              ([lit ''[Queue overflow] Dropped '' @ showNat (droppedCount q) @ lit '' message''
                @ (if droppedCount q = 1 then [] else lit ''s'') @ lit '' due to cap.'']
               @ (if summaryLines q \<noteq> []
                  then lit ''Summary:'' # map (\<lambda>line. lit ''- '' @ line) (summaryLines q)
                  else []))),
            q\<lparr>droppedCount := 0, summaryLines := []\<rparr>)"
  using assms by (simp add: buildSummaryPrompt_def Let_def)

lemma buildSummaryPrompt_truthy:
  assumes "0 < droppedCount q" and "dropPolicy q = Summarize"
  shows "truthy (fst (buildSummaryPrompt q))"
proof -
  have "lit ''[Queue overflow] Dropped '' @ showNat (droppedCount q) @ lit '' message''
                @ (if droppedCount q = 1 then [] else lit ''s'') @ lit '' due to cap.'' \<noteq> []"
    by (simp add: lit_def)
  then show ?thesis
    using assms joinWith_Cons_nonempty
    by (simp add: buildSummaryPrompt_pending truthy_def)
qed

lemma buildSummaryPrompt_none:
  "dropPolicy q \<noteq> Summarize \<or> droppedCount q = 0 \<Longrightarrow> buildSummaryPrompt q = (None, q)"
  by (auto simp add: buildSummaryPrompt_def)

lemma fst_buildSummaryPrompt_cong:
  "dropPolicy a = dropPolicy b \<Longrightarrow> droppedCount a = droppedCount b \<Longrightarrow>
   summaryLines a = summaryLines b \<Longrightarrow>
   fst (buildSummaryPrompt a) = fst (buildSummaryPrompt b)"
  by (simp add: buildSummaryPrompt_def Let_def)

lemma drainLoop_summary_plain:
  assumes "items q = []" and "0 < droppedCount q" and "dropPolicy q = Summarize"
    and "lastRun q = Some rr" and "mode q \<noteq> Collect"
    and "buildSummaryPrompt q = (Some summary, q1)"
  shows "drainLoop R ex clk f q calls =
           Some (q1, calls @ [summaryRun (clk (length calls)) summary rr])"
proof -
  have q1e: "q1 = q\<lparr>droppedCount := 0, summaryLines := []\<rparr>"
    using buildSummaryPrompt_pending [OF assms(2,3)] assms(6) by simp
  have tr: "truthy (Some summary)"
    using buildSummaryPrompt_truthy [OF assms(2,3)] assms(6) by simp
  have q1: "items q1 = []" "droppedCount q1 = 0" "lastRun q1 = Some rr"
    using assms(1,4) q1e by simp_all
  have stop: "\<And>cs. drainLoop R ex clk f q1 cs = Some (q1, cs)"
    using q1 by (subst drainLoop.simps) simp
  have p: "drainPass R (clk (length calls)) f q =
             Call f q1 (summaryRun (clk (length calls)) summary rr)"
    using assms(5,6) tr q1 by (simp add: drainPass_def)
  show ?thesis
    using assms(2) p stop by (subst drainLoop.simps) simp
qed

lemma drainLoop_summary_collect:
  assumes "items q = []" and "0 < droppedCount q" and "dropPolicy q = Summarize"
    and "lastRun q = Some rr" and "mode q = Collect"
    and "buildSummaryPrompt q = (Some summary, q1)"
  shows "drainLoop R ex clk False q calls =
           Some (q1, calls @ [collectRun (clk (length calls)) [] (Some summary) rr])"
proof -
  have q1e: "q1 = q\<lparr>droppedCount := 0, summaryLines := []\<rparr>"
    using buildSummaryPrompt_pending [OF assms(2,3)] assms(6) by simp
  have q1: "items q1 = []" "droppedCount q1 = 0" "lastRun q1 = Some rr"
    using assms(1,4) q1e by simp_all
  have stop: "\<And>cs. drainLoop R ex clk False q1 cs = Some (q1, cs)"
    using q1 by (subst drainLoop.simps) simp
  have qq: "q\<lparr>items := []\<rparr> = q" using assms(1) by simp
  have bs': "buildSummaryPrompt (q\<lparr>items := []\<rparr>) = (Some summary, q1)"
    using assms(6) by (simp only: qq)
  have nc: "\<not> hasCrossChannelItems R (items q)"
    using assms(1) by (simp add: hasCrossChannelItems_def)
  have p: "drainPass R (clk (length calls)) False q =
             Call False q1 (collectRun (clk (length calls)) [] (Some summary) rr)"
    using assms(1,5) nc bs' q1 by (simp add: drainPass_def)
  show ?thesis
    using assms(2) p stop by (subst drainLoop.simps) simp
qed

lemma drainLoop_switched_empty:
  assumes "items q = []" and "0 < droppedCount q" and "mode q = Collect"
  shows "drainLoop R ex clk True q calls = Some (q, calls)"
proof -
  have "drainPass R (clk (length calls)) True q = Break q"
    using assms(1,3) by (simp add: drainPass_def shiftNext_def)
  then show ?thesis using assms(2) by (subst drainLoop.simps) simp
qed

lemma drainTask_summary_collect:
  assumes "items q = []" and "0 < droppedCount q" and "dropPolicy q = Summarize"
    and "lastRun q = Some rr" and "mode q = Collect"
    and "fst (buildSummaryPrompt q) = Some summary"
  shows "drainTask R ex clk q calls =
           Some (Discarded, calls @ [collectRun (clk (length calls)) [] (Some summary) rr])"
proof -
  let ?q = "q\<lparr>draining := True\<rparr>"
  let ?q1 = "?q\<lparr>droppedCount := 0, summaryLines := []\<rparr>"
  have p1: "fst (buildSummaryPrompt ?q) = fst (buildSummaryPrompt q)"
    by (rule fst_buildSummaryPrompt_cong) simp_all
  have p2: "snd (buildSummaryPrompt ?q) = ?q1"
    using buildSummaryPrompt_pending [of ?q] assms(2,3) by simp
  have bs: "buildSummaryPrompt ?q = (Some summary, ?q1)"
    using p1 p2 assms(6) by (metis prod.collapse)
  have l: "drainLoop R ex clk False ?q calls =
           Some (?q1, calls @ [collectRun (clk (length calls)) [] (Some summary) rr])"
    using drainLoop_summary_collect [where q = ?q and rr = rr and summary = summary
        and ?q1.0 = ?q1 and R = R and ex = ex and clk = clk and calls = calls] assms bs
    by simp
  have fin: "drainFinally ?q1 = Discarded"
    using assms(1) by (simp add: drainFinally_def Let_def)
  show ?thesis using l fin by (simp add: drainTask_def)
qed

lemma drainLoop_count_without_policy:
  assumes "items q = []" and "0 < droppedCount q" and "dropPolicy q \<noteq> Summarize"
    and "mode q \<noteq> Collect"
  shows "drainLoop R ex clk f q calls = Some (q, calls)"
proof -
  have bs: "buildSummaryPrompt q = (None, q)"
    using assms(3) by (simp add: buildSummaryPrompt_none)
  have "drainPass R (clk (length calls)) f q = Break q"
    using assms(1,4) bs by (simp add: drainPass_def truthy_def shiftNext_def)
  then show ?thesis using assms(2) by (subst drainLoop.simps) simp
qed

lemma drainTask_count_without_policy:
  assumes "items q = []" and "0 < droppedCount q" and "dropPolicy q \<noteq> Summarize"
    and "mode q \<noteq> Collect"
  shows "drainTask R ex clk (q\<lparr>draining := False\<rparr>) calls =
           Some (Rescheduled (q\<lparr>draining := False\<rparr>), calls)"
proof -
  let ?q = "q\<lparr>draining := True\<rparr>"
  have l: "drainLoop R ex clk False ?q calls = Some (?q, calls)"
    using drainLoop_count_without_policy [where q = ?q and R = R and ex = ex and clk = clk
        and f = False and calls = calls] assms by simp
  have fin: "drainFinally ?q = Rescheduled (q\<lparr>draining := False\<rparr>)"
    using assms(2) by (simp add: drainFinally_def Let_def)
  show ?thesis using l fin by (simp add: drainTask_def)
qed

lemma drainSteps_count_without_policy:
  assumes "items q = []" and "0 < droppedCount q" and "dropPolicy q \<noteq> Summarize"
    and "mode q = Collect" and "lastRun q = Some rr" and "\<forall>i r. ex i r"
  shows "\<exists>new. drainSteps R ex clk n False q calls = Running False q (calls @ new) \<and>
               length new = n \<and> (\<forall>c \<in> set new. \<exists>now. c = collectRun now [] None rr)"
proof (induction n arbitrary: calls)
  case 0
  then show ?case by simp
next
  case (Suc n)
  have qq: "q\<lparr>items := []\<rparr> = q" using assms(1) by simp
  have bs: "buildSummaryPrompt (q\<lparr>items := []\<rparr>) = (None, q)"
    using assms(3) qq by (simp add: buildSummaryPrompt_none)
  have nc: "\<not> hasCrossChannelItems R (items q)"
    using assms(1) by (simp add: hasCrossChannelItems_def)
  let ?c = "collectRun (clk (length calls)) [] None rr"
  have p: "drainPass R (clk (length calls)) False q = Call False q ?c"
    using assms(1,4,5) nc bs by (simp add: drainPass_def)
  from Suc.IH [of "calls @ [?c]"] obtain new where
    n1: "drainSteps R ex clk n False q (calls @ [?c]) = Running False q ((calls @ [?c]) @ new)"
    and n2: "length new = n" and n3: "\<forall>c \<in> set new. \<exists>now. c = collectRun now [] None rr"
    by blast
  have "drainSteps R ex clk (Suc n) False q calls = Running False q (calls @ (?c # new))"
    using assms(2,6) p n1 by simp
  moreover have "length (?c # new) = Suc n" using n2 by simp
  moreover have "\<forall>c \<in> set (?c # new). \<exists>now. c = collectRun now [] None rr"
    using n3 by auto
  ultimately show ?case by blast
qed

lemma drainLoop_count_without_policy_collect:
  assumes "items q = []" and "0 < droppedCount q" and "dropPolicy q \<noteq> Summarize"
    and "mode q = Collect" and "lastRun q = Some rr" and "\<forall>i r. ex i r"
  shows "drainLoop R ex clk False q calls = None"
proof (cases "drainLoop R ex clk False q calls")
  case None
  then show ?thesis .
next
  case (Some y)
  from drainLoop_drainSteps [OF this] obtain n where
    l: "drainSteps R ex clk n False q calls = Exited (fst y) (snd y)" by blast
  from drainSteps_count_without_policy [OF assms, of R clk n calls] obtain new where
    "drainSteps R ex clk n False q calls = Running False q (calls @ new)" by blast
  with l show ?thesis by simp
qed

text \<open>
  Claim C6. The queue has nothing queued, a positive dropped count and the run parameters
  of the last enqueue on record. Under the drop policy \<open>summarize\<close>, \<open>buildSummaryPrompt\<close>
  returns the overflow summary (the dropped count, then the recorded summary lines) and
  resets the count and the lines, and the summary reaches the executor in exactly one
  call: outside collect mode the loop issues one call whose prompt is the summary; in
  collect mode a loop that has not switched to per-item processing issues one call whose
  prompt is the collect header followed by the summary, and a loop that has switched is
  left without a call, after which the \<open>finally\<close> block reschedules the drain, which issues
  that call and discards the queue. Under another drop policy (the policy of a queue is
  replaced by that of a later enqueue, while the count stays) no summary is built and the
  count is never reset: outside collect mode the loop is left without a call and the
  \<open>finally\<close> block reschedules the drain on the same queue, which does the same again, and so
  on without end; in collect mode, with an executor that resolves, the loop never ends
  and every pass passes a run to the executor whose prompt is the collect header alone.
\<close>

theorem pending_summary_is_delivered:
  assumes "items q = []" and "0 < droppedCount q" and "lastRun q = Some rr"
    and "summary = joinWith [10]
              ([lit ''[Queue overflow] Dropped '' @ showNat (droppedCount q) @ lit '' message''
                @ (if droppedCount q = 1 then [] else lit ''s'') @ lit '' due to cap.'']
               @ (if summaryLines q \<noteq> []
                  then lit ''Summary:'' # map (\<lambda>line. lit ''- '' @ line) (summaryLines q)
                  else []))"
    and "q1 = q\<lparr>droppedCount := 0, summaryLines := []\<rparr>"
    and "idle = q\<lparr>draining := False\<rparr>"
  shows "(dropPolicy q = Summarize \<longrightarrow>
            buildSummaryPrompt q = (Some summary, q1) \<and>
            (mode q \<noteq> Collect \<longrightarrow>
               drainLoop R ex clk f q calls =
                 Some (q1, calls @ [summaryRun (clk (length calls)) summary rr]) \<and>
               prompt (summaryRun (clk (length calls)) summary rr) = summary) \<and>
            (mode q = Collect \<longrightarrow>
               drainLoop R ex clk False q calls =
                 Some (q1, calls @ [collectRun (clk (length calls)) [] (Some summary) rr]) \<and>
               prompt (collectRun (clk (length calls)) [] (Some summary) rr) =
                 lit ''[Queued messages while agent was busy]'' @ [10, 10] @ summary \<and>
               drainLoop R ex clk True q calls = Some (q, calls) \<and>
               drainFinally q = Rescheduled idle \<and>
               drainTask R ex clk idle calls =
                 Some (Discarded,
                       calls @ [collectRun (clk (length calls)) [] (Some summary) rr]))) \<and>
         (dropPolicy q \<noteq> Summarize \<longrightarrow>
            buildSummaryPrompt q = (None, q) \<and>
            (mode q \<noteq> Collect \<longrightarrow>
               drainLoop R ex clk f q calls = Some (q, calls) \<and>
               drainFinally q = Rescheduled idle \<and>
               drainTask R ex clk idle calls = Some (Rescheduled idle, calls)) \<and>
            (mode q = Collect \<and> (\<forall>i r. ex i r) \<longrightarrow>
               (\<forall>n. \<exists>new. drainSteps R ex clk n False q calls = Running False q (calls @ new) \<and>
                      length new = n \<and>
                      (\<forall>c \<in> set new. \<exists>now. c = collectRun now [] None rr)) \<and>
               drainLoop R ex clk False q calls = None \<and>
               (\<forall>now. prompt (collectRun now [] None rr) =
                        lit ''[Queued messages while agent was busy]'')))"
proof -
  have fin: "drainFinally q = Rescheduled idle"
    using assms(2,6) by (simp add: drainFinally_def Let_def)
  have s: "dropPolicy q = Summarize \<longrightarrow>
            buildSummaryPrompt q = (Some summary, q1) \<and>
            (mode q \<noteq> Collect \<longrightarrow>
               drainLoop R ex clk f q calls =
                 Some (q1, calls @ [summaryRun (clk (length calls)) summary rr]) \<and>
               prompt (summaryRun (clk (length calls)) summary rr) = summary) \<and>
            (mode q = Collect \<longrightarrow>
               drainLoop R ex clk False q calls =
                 Some (q1, calls @ [collectRun (clk (length calls)) [] (Some summary) rr]) \<and>
               prompt (collectRun (clk (length calls)) [] (Some summary) rr) =
                 lit ''[Queued messages while agent was busy]'' @ [10, 10] @ summary \<and>
               drainLoop R ex clk True q calls = Some (q, calls) \<and>
               drainFinally q = Rescheduled idle \<and>
               drainTask R ex clk idle calls =
                 Some (Discarded,
                       calls @ [collectRun (clk (length calls)) [] (Some summary) rr]))"
  proof
    assume sm: "dropPolicy q = Summarize"
    have bs: "buildSummaryPrompt q = (Some summary, q1)"
      using buildSummaryPrompt_pending [OF assms(2) sm] assms(4,5) by simp
    have tr: "truthy (Some summary)"
      using buildSummaryPrompt_truthy [OF assms(2) sm] bs by simp
    have a: "mode q \<noteq> Collect \<longrightarrow>
               drainLoop R ex clk f q calls =
                 Some (q1, calls @ [summaryRun (clk (length calls)) summary rr]) \<and>
               prompt (summaryRun (clk (length calls)) summary rr) = summary"
      using drainLoop_summary_plain [OF assms(1,2) sm assms(3) _ bs, of R ex clk f calls]
      by (simp add: summaryRun_def)
    have b: "mode q = Collect \<longrightarrow>
               drainLoop R ex clk False q calls =
                 Some (q1, calls @ [collectRun (clk (length calls)) [] (Some summary) rr]) \<and>
               prompt (collectRun (clk (length calls)) [] (Some summary) rr) =
                 lit ''[Queued messages while agent was busy]'' @ [10, 10] @ summary \<and>
               drainLoop R ex clk True q calls = Some (q, calls) \<and>
               drainFinally q = Rescheduled idle \<and>
               drainTask R ex clk idle calls =
                 Some (Discarded,
                       calls @ [collectRun (clk (length calls)) [] (Some summary) rr])"
    proof
      assume m: "mode q = Collect"
      have b1: "drainLoop R ex clk False q calls =
                 Some (q1, calls @ [collectRun (clk (length calls)) [] (Some summary) rr])"
        using drainLoop_summary_collect [OF assms(1,2) sm assms(3) m bs] .
      have b2: "prompt (collectRun (clk (length calls)) [] (Some summary) rr) =
                 lit ''[Queued messages while agent was busy]'' @ [10, 10] @ summary"
        using tr by (simp add: collectRun_def buildCollectPrompt_def Let_def)
      have b3: "drainLoop R ex clk True q calls = Some (q, calls)"
        using drainLoop_switched_empty [OF assms(1,2) m] .
      have "fst (buildSummaryPrompt idle) = fst (buildSummaryPrompt q)"
        using assms(6) by (intro fst_buildSummaryPrompt_cong) simp_all
      then have fs: "fst (buildSummaryPrompt idle) = Some summary"
        using bs by simp
      have b4: "drainTask R ex clk idle calls =
                 Some (Discarded,
                       calls @ [collectRun (clk (length calls)) [] (Some summary) rr])"
        using drainTask_summary_collect [where q = idle and rr = rr and summary = summary
            and R = R and ex = ex and clk = clk and calls = calls]
          assms(1,2,3,6) sm m fs by simp
      from b1 b2 b3 fin b4 show "drainLoop R ex clk False q calls =
                 Some (q1, calls @ [collectRun (clk (length calls)) [] (Some summary) rr]) \<and>
               prompt (collectRun (clk (length calls)) [] (Some summary) rr) =
                 lit ''[Queued messages while agent was busy]'' @ [10, 10] @ summary \<and>
               drainLoop R ex clk True q calls = Some (q, calls) \<and>
               drainFinally q = Rescheduled idle \<and>
               drainTask R ex clk idle calls =
                 Some (Discarded,
                       calls @ [collectRun (clk (length calls)) [] (Some summary) rr])"
        by (intro conjI)
    qed
    from bs a b show "buildSummaryPrompt q = (Some summary, q1) \<and>
            (mode q \<noteq> Collect \<longrightarrow>
               drainLoop R ex clk f q calls =
                 Some (q1, calls @ [summaryRun (clk (length calls)) summary rr]) \<and>
               prompt (summaryRun (clk (length calls)) summary rr) = summary) \<and>
            (mode q = Collect \<longrightarrow>
               drainLoop R ex clk False q calls =
                 Some (q1, calls @ [collectRun (clk (length calls)) [] (Some summary) rr]) \<and>
               prompt (collectRun (clk (length calls)) [] (Some summary) rr) =
                 lit ''[Queued messages while agent was busy]'' @ [10, 10] @ summary \<and>
               drainLoop R ex clk True q calls = Some (q, calls) \<and>
               drainFinally q = Rescheduled idle \<and>
               drainTask R ex clk idle calls =
                 Some (Discarded,
                       calls @ [collectRun (clk (length calls)) [] (Some summary) rr]))"
      by (intro conjI)
  qed
  have n: "dropPolicy q \<noteq> Summarize \<longrightarrow>
            buildSummaryPrompt q = (None, q) \<and>
            (mode q \<noteq> Collect \<longrightarrow>
               drainLoop R ex clk f q calls = Some (q, calls) \<and>
               drainFinally q = Rescheduled idle \<and>
               drainTask R ex clk idle calls = Some (Rescheduled idle, calls)) \<and>
            (mode q = Collect \<and> (\<forall>i r. ex i r) \<longrightarrow>
               (\<forall>n. \<exists>new. drainSteps R ex clk n False q calls = Running False q (calls @ new) \<and>
                      length new = n \<and>
                      (\<forall>c \<in> set new. \<exists>now. c = collectRun now [] None rr)) \<and>
               drainLoop R ex clk False q calls = None \<and>
               (\<forall>now. prompt (collectRun now [] None rr) =
                        lit ''[Queued messages while agent was busy]''))"
  proof
    assume np: "dropPolicy q \<noteq> Summarize"
    have bs: "buildSummaryPrompt q = (None, q)"
      using np by (simp add: buildSummaryPrompt_none)
    have a: "mode q \<noteq> Collect \<longrightarrow>
               drainLoop R ex clk f q calls = Some (q, calls) \<and>
               drainFinally q = Rescheduled idle \<and>
               drainTask R ex clk idle calls = Some (Rescheduled idle, calls)"
    proof
      assume m: "mode q \<noteq> Collect"
      have a1: "drainLoop R ex clk f q calls = Some (q, calls)"
        using drainLoop_count_without_policy [OF assms(1,2) np m] .
      have a2: "drainTask R ex clk idle calls = Some (Rescheduled idle, calls)"
        using drainTask_count_without_policy [OF assms(1,2) np m, of R ex clk calls] assms(6)
        by simp
      from a1 fin a2 show "drainLoop R ex clk f q calls = Some (q, calls) \<and>
               drainFinally q = Rescheduled idle \<and>
               drainTask R ex clk idle calls = Some (Rescheduled idle, calls)"
        by (intro conjI)
    qed
    have b: "mode q = Collect \<and> (\<forall>i r. ex i r) \<longrightarrow>
               (\<forall>n. \<exists>new. drainSteps R ex clk n False q calls = Running False q (calls @ new) \<and>
                      length new = n \<and>
                      (\<forall>c \<in> set new. \<exists>now. c = collectRun now [] None rr)) \<and>
               drainLoop R ex clk False q calls = None \<and>
               (\<forall>now. prompt (collectRun now [] None rr) =
                        lit ''[Queued messages while agent was busy]'')"
    proof
      assume h: "mode q = Collect \<and> (\<forall>i r. ex i r)"
      then have m: "mode q = Collect" and e: "\<forall>i r. ex i r" by simp_all
      have b1: "\<forall>n. \<exists>new. drainSteps R ex clk n False q calls = Running False q (calls @ new) \<and>
                      length new = n \<and>
                      (\<forall>c \<in> set new. \<exists>now. c = collectRun now [] None rr)"
        using drainSteps_count_without_policy [OF assms(1,2) np m assms(3) e] by blast
      have b2: "drainLoop R ex clk False q calls = None"
        using drainLoop_count_without_policy_collect [OF assms(1,2) np m assms(3) e] .
      have b3: "\<forall>now. prompt (collectRun now [] None rr) =
                        lit ''[Queued messages while agent was busy]''"
        by (simp add: collectRun_def buildCollectPrompt_def truthy_def Let_def)
      from b1 b2 b3 show "(\<forall>n. \<exists>new. drainSteps R ex clk n False q calls = Running False q (calls @ new) \<and>
                      length new = n \<and>
                      (\<forall>c \<in> set new. \<exists>now. c = collectRun now [] None rr)) \<and>
               drainLoop R ex clk False q calls = None \<and>
               (\<forall>now. prompt (collectRun now [] None rr) =
                        lit ''[Queued messages while agent was busy]'')"
        by (intro conjI)
    qed
    from bs a b show "buildSummaryPrompt q = (None, q) \<and>
            (mode q \<noteq> Collect \<longrightarrow>
               drainLoop R ex clk f q calls = Some (q, calls) \<and>
               drainFinally q = Rescheduled idle \<and>
               drainTask R ex clk idle calls = Some (Rescheduled idle, calls)) \<and>
            (mode q = Collect \<and> (\<forall>i r. ex i r) \<longrightarrow>
               (\<forall>n. \<exists>new. drainSteps R ex clk n False q calls = Running False q (calls @ new) \<and>
                      length new = n \<and>
                      (\<forall>c \<in> set new. \<exists>now. c = collectRun now [] None rr)) \<and>
               drainLoop R ex clk False q calls = None \<and>
               (\<forall>now. prompt (collectRun now [] None rr) =
                        lit ''[Queued messages while agent was busy]''))"
      by (intro conjI)
  qed
  from s n show ?thesis by (intro conjI)
qed

lemma buildQueueSummaryLine_a:
  "buildQueueSummaryLine (sampleRun ''a'' None None None) = lit ''a''"
  by (simp add: buildQueueSummaryLine_def sampleRun_def trim_def trimStart_def trimEnd_def
      lit_def isWhitespace_def collapseWhitespace_def elideText_def)

lemma sampleOverflowRegistry_k:
  "sampleOverflowRegistry (lit ''k'') =
     Some \<lparr> items = [sampleRun ''c'' None None None], draining = False, lastEnqueuedAt = 3,
            mode = Followup, debounceMs = 1000, cap = 1, dropPolicy = DropOld,
            droppedCount = 1, summaryLines = [lit ''a''], lastRun = Some 7 \<rparr>"
proof -
  let ?k = "lit ''k''"
  let ?s = "sampleSettingsWith Followup 1 Summarize"
  have e1: "snd (enqueueFollowupRun 1 ?k (sampleRun ''a'' None None None) ?s DedupeNone Map.empty)
      = [?k \<mapsto> \<lparr> items = [sampleRun ''a'' None None None], draining = False, lastEnqueuedAt = 1,
            mode = Followup, debounceMs = 1000, cap = 1, dropPolicy = Summarize,
            droppedCount = 0, summaryLines = [], lastRun = Some 7 \<rparr>]"
    by (simp add: enqueueFollowupRun_def getFollowupQueue_def isDeduplicated_def Let_def
        sampleSettingsWith_def DEFAULT_QUEUE_DEBOUNCE_MS_def) (simp add: sampleRun_def)
  have e2: "snd (enqueueFollowupRun 2 ?k (sampleRun ''b'' None None None) ?s DedupeNone
        [?k \<mapsto> \<lparr> items = [sampleRun ''a'' None None None], draining = False, lastEnqueuedAt = 1,
            mode = Followup, debounceMs = 1000, cap = 1, dropPolicy = Summarize,
            droppedCount = 0, summaryLines = [], lastRun = Some 7 \<rparr>])
      = [?k \<mapsto> \<lparr> items = [sampleRun ''b'' None None None], draining = False, lastEnqueuedAt = 2,
            mode = Followup, debounceMs = 1000, cap = 1, dropPolicy = Summarize,
            droppedCount = 1, summaryLines = [lit ''a''], lastRun = Some 7 \<rparr>]"
    by (simp add: enqueueFollowupRun_def getFollowupQueue_def isDeduplicated_def Let_def
        sampleSettingsWith_def buildQueueSummaryLine_a) (simp add: sampleRun_def)
  have e3: "snd (enqueueFollowupRun 3 ?k (sampleRun ''c'' None None None)
            (sampleSettingsWith Followup 1 DropOld) DedupeNone
        [?k \<mapsto> \<lparr> items = [sampleRun ''b'' None None None], draining = False, lastEnqueuedAt = 2,
            mode = Followup, debounceMs = 1000, cap = 1, dropPolicy = Summarize,
            droppedCount = 1, summaryLines = [lit ''a''], lastRun = Some 7 \<rparr>])
      = [?k \<mapsto> \<lparr> items = [sampleRun ''c'' None None None], draining = False, lastEnqueuedAt = 3,
            mode = Followup, debounceMs = 1000, cap = 1, dropPolicy = DropOld,
            droppedCount = 1, summaryLines = [lit ''a''], lastRun = Some 7 \<rparr>]"
    by (simp add: enqueueFollowupRun_def getFollowupQueue_def isDeduplicated_def Let_def
        sampleSettingsWith_def) (simp add: sampleRun_def)
  show ?thesis
    unfolding sampleOverflowRegistry_def by (simp only: e1 e2 e3) simp
qed


theorem pending_summary_is_delivered_witness:
  "drainLoop (\<lambda>c. True) (\<lambda>i r. True) (\<lambda>i. 0) False (samplePendingQueue Followup Summarize) []
   = Some ((samplePendingQueue Followup Summarize)\<lparr>droppedCount := 0, summaryLines := []\<rparr>,
           [summaryRun 0
              (lit ''[Queue overflow] Dropped 1 message due to cap.'' @ [10]
               @ lit ''Summary:'' @ [10] @ lit ''- a'') 7]) \<and>
   drainTask (\<lambda>c. True) (\<lambda>i r. True) (\<lambda>i. 0)
     ((samplePendingQueue Followup DropOld)\<lparr>draining := False\<rparr>) []
   = Some (Rescheduled ((samplePendingQueue Followup DropOld)\<lparr>draining := False\<rparr>), []) \<and>
   drainLoop (\<lambda>c. True) (\<lambda>i r. True) (\<lambda>i. 0) False (samplePendingQueue Collect DropOld) []
   = None"
proof -
  let ?q = "samplePendingQueue Followup Summarize"
  have h: "items ?q = []" "0 < droppedCount ?q" "dropPolicy ?q = Summarize" "lastRun ?q = Some 7"
    "mode ?q \<noteq> Collect" "droppedCount ?q = 1" "summaryLines ?q = [lit ''a'']"
    by (simp_all add: samplePendingQueue_def)
  have "drainLoop (\<lambda>c. True) (\<lambda>i r. True) (\<lambda>i. 0) False ?q [] =
      Some (?q\<lparr>droppedCount := 0, summaryLines := []\<rparr>,
        [] @ [summaryRun ((\<lambda>i. 0) (length []))
           (joinWith [10]
              ([lit ''[Queue overflow] Dropped '' @ showNat (droppedCount ?q) @ lit '' message''
                @ (if droppedCount ?q = 1 then [] else lit ''s'') @ lit '' due to cap.'']
               @ (if summaryLines ?q \<noteq> []
                  then lit ''Summary:'' # map (\<lambda>line. lit ''- '' @ line) (summaryLines ?q)
                  else []))) 7])"
    using pending_summary_is_delivered
      [where q = ?q and rr = 7 and R = "\<lambda>c. True" and ex = "\<lambda>i r. True" and clk = "\<lambda>i. 0"
         and f = False and calls = "[]", OF h(1) h(2) h(4) refl refl refl,
         THEN conjunct1, THEN mp, OF h(3), THEN conjunct2, THEN conjunct1, THEN mp, OF h(5),
         THEN conjunct1]
    by simp
  then have one: "drainLoop (\<lambda>c. True) (\<lambda>i r. True) (\<lambda>i. 0) False ?q [] =
      Some (?q\<lparr>droppedCount := 0, summaryLines := []\<rparr>,
           [summaryRun 0
              (lit ''[Queue overflow] Dropped 1 message due to cap.'' @ [10]
               @ lit ''Summary:'' @ [10] @ lit ''- a'') 7])"
    by (simp add: h(6) h(7) showNat.simps) (simp add: lit_def)
  let ?o = "samplePendingQueue Followup DropOld"
  have g: "items ?o = []" "0 < droppedCount ?o" "dropPolicy ?o \<noteq> Summarize" "lastRun ?o = Some 7"
    "mode ?o \<noteq> Collect"
    by (simp_all add: samplePendingQueue_def)
  have two: "drainTask (\<lambda>c. True) (\<lambda>i r. True) (\<lambda>i. 0) (?o\<lparr>draining := False\<rparr>) []
       = Some (Rescheduled (?o\<lparr>draining := False\<rparr>), [])"
    by (rule pending_summary_is_delivered
      [where q = ?o and rr = 7 and R = "\<lambda>c. True" and ex = "\<lambda>i r. True" and clk = "\<lambda>i. 0"
         and f = False and calls = "[]", OF g(1) g(2) g(4) refl refl refl,
         THEN conjunct2, THEN mp, OF g(3), THEN conjunct2, THEN conjunct1, THEN mp, OF g(5),
         THEN conjunct2, THEN conjunct2])
  let ?c = "samplePendingQueue Collect DropOld"
  have k: "items ?c = []" "0 < droppedCount ?c" "dropPolicy ?c \<noteq> Summarize" "lastRun ?c = Some 7"
    "mode ?c = Collect \<and> (\<forall>i r. (\<lambda>(i::nat) (r::nat FollowupRun). True) i r)"
    by (simp_all add: samplePendingQueue_def)
  have three: "drainLoop (\<lambda>c. True) (\<lambda>i r. True) (\<lambda>i. 0) False ?c [] = None"
    by (rule pending_summary_is_delivered
      [where q = ?c and rr = 7 and R = "\<lambda>c. True" and ex = "\<lambda>i r. True" and clk = "\<lambda>i. 0"
         and f = False and calls = "[]", OF k(1) k(2) k(4) refl refl refl,
         THEN conjunct2, THEN mp, OF k(3), THEN conjunct2, THEN conjunct2, THEN mp, OF k(5),
         THEN conjunct2, THEN conjunct1])
  from one two three show ?thesis by (intro conjI)
qed

text \<open>The input at which the code leaves the claim: in the registry reached by two
  enqueues under \<open>summarize\<close> and a third under \<open>old\<close>, the drain passes the queued item and
  then, with nothing queued and the count still positive, issues no call; the \<open>finally\<close>
  block reschedules the drain on the queue as it stands, and that drain ends where it
  began. In collect mode three passes of the loop give three calls with the header alone,
  and the loop is still running.\<close>

theorem pending_count_without_summary_counterexample:
  "sampleOverflowRegistry (lit ''k'') =
     Some ((samplePendingQueue Followup DropOld)
             \<lparr>items := [sampleRun ''c'' None None None], draining := False\<rparr>) \<and>
   drainTask (\<lambda>c. True) (\<lambda>i r. True) (\<lambda>i. 0)
     ((samplePendingQueue Followup DropOld)
        \<lparr>items := [sampleRun ''c'' None None None], draining := False\<rparr>) []
     = Some (Rescheduled ((samplePendingQueue Followup DropOld)\<lparr>draining := False\<rparr>),
             [sampleRun ''c'' None None None]) \<and>
   items (samplePendingQueue Followup DropOld) = [] \<and>
   droppedCount (samplePendingQueue Followup DropOld) = 1 \<and>
   drainTask (\<lambda>c. True) (\<lambda>i r. True) (\<lambda>i. 0)
     ((samplePendingQueue Followup DropOld)\<lparr>draining := False\<rparr>)
     [sampleRun ''c'' None None None]
     = Some (Rescheduled ((samplePendingQueue Followup DropOld)\<lparr>draining := False\<rparr>),
             [sampleRun ''c'' None None None]) \<and>
   drainSteps (\<lambda>c. True) (\<lambda>i r. True) (\<lambda>i. 0) 3 False (samplePendingQueue Collect DropOld) []
     = Running False (samplePendingQueue Collect DropOld)
         [collectRun 0 [] None 7, collectRun 0 [] None 7, collectRun 0 [] None 7] \<and>
   prompt (collectRun 0 [] None (7::nat)) = lit ''[Queued messages while agent was busy]''"
proof -
  let ?o = "samplePendingQueue Followup DropOld"
  let ?c = "sampleRun ''c'' None None None"
  have a: "sampleOverflowRegistry (lit ''k'') =
     Some (?o\<lparr>items := [?c], draining := False\<rparr>)"
    by (simp add: sampleOverflowRegistry_k samplePendingQueue_def)
  have l2: "drainLoop (\<lambda>c. True) (\<lambda>i r. True) (\<lambda>i. 0) False ?o [?c] = Some (?o, [?c])"
    by (subst drainLoop.simps)
      (simp add: samplePendingQueue_def drainPass_def buildSummaryPrompt_def truthy_def
        shiftNext_def)
  have l1: "drainLoop (\<lambda>c. True) (\<lambda>i r. True) (\<lambda>i. 0) False (?o\<lparr>items := [?c]\<rparr>) []
     = Some (?o, [?c])"
    using l2
    by (subst drainLoop.simps)
      (simp add: samplePendingQueue_def drainPass_def buildSummaryPrompt_def truthy_def
        shiftNext_def)
  have d: "?o\<lparr>items := [?c], draining := False\<rparr>\<lparr>draining := True\<rparr> = ?o\<lparr>items := [?c]\<rparr>"
    "?o\<lparr>draining := False\<rparr>\<lparr>draining := True\<rparr> = ?o"
    by (simp_all add: samplePendingQueue_def)
  have g: "items ?o = []" "droppedCount ?o = 1" by (simp_all add: samplePendingQueue_def)
  have fin: "drainFinally ?o = Rescheduled (?o\<lparr>draining := False\<rparr>)"
    using g by (simp add: drainFinally_def Let_def)
  have b: "drainTask (\<lambda>c. True) (\<lambda>i r. True) (\<lambda>i. 0) (?o\<lparr>items := [?c], draining := False\<rparr>) []
     = Some (Rescheduled (?o\<lparr>draining := False\<rparr>), [?c])"
    unfolding drainTask_def by (simp add: d l1 fin)
  have c: "drainTask (\<lambda>c. True) (\<lambda>i r. True) (\<lambda>i. 0) (?o\<lparr>draining := False\<rparr>) [?c]
     = Some (Rescheduled (?o\<lparr>draining := False\<rparr>), [?c])"
    unfolding drainTask_def by (simp add: d l2 fin)
  have e: "drainSteps (\<lambda>c. True) (\<lambda>i r. True) (\<lambda>i. 0) 3 False (samplePendingQueue Collect DropOld) []
     = Running False (samplePendingQueue Collect DropOld)
         [collectRun 0 [] None 7, collectRun 0 [] None 7, collectRun 0 [] None 7]"
    by (simp add: numeral_3_eq_3 samplePendingQueue_def drainPass_def buildSummaryPrompt_def
        hasCrossChannelItems_def)
  have f: "prompt (collectRun 0 [] None (7::nat)) = lit ''[Queued messages while agent was busy]''"
    by (simp add: collectRun_def buildCollectPrompt_def truthy_def Let_def)
  from a b g c e f show ?thesis by (intro conjI)
qed

subsection \<open>One drain loop per key\<close>

lemma draining_buildSummaryPrompt: "draining (snd (buildSummaryPrompt q)) = draining q"
  by (simp add: buildSummaryPrompt_def Let_def)

lemma drainPass_draining:
  "drainPass R now f q = Call f1 q1 r \<Longrightarrow> draining q1 = draining q"
  "drainPass R now f q = Break q1 \<Longrightarrow> draining q1 = draining q"
  by (auto simp add: drainPass_def shiftNext_def buildSummaryPrompt_def Let_def
      split: if_splits list.splits option.splits prod.splits)

lemma enqueue_writes_key:
  "\<exists>q'. snd (enqueueFollowupRun now key r s d Q) key = Some q' \<and>
         draining q' = (case Q key of Some e \<Rightarrow> draining e | None \<Rightarrow> False)"
proof -
  have g: "draining (getFollowupQueue key s Q) = (case Q key of Some e \<Rightarrow> draining e | None \<Rightarrow> False)"
    by (simp add: getFollowupQueue_def split: option.splits)
  show ?thesis
    using g by (simp add: enqueueFollowupRun_def Let_def recordDropped_fields)
qed

lemma worldInvariant_initial: "worldInvariant initialWorld"
  by (simp add: worldInvariant_def initialWorld_def loopsDistinct_def loopsHoldRegistered_def
      registryAllocated_def registryInjective_def)

lemma worldInvariant_enqueueW:
  assumes "worldInvariant w"
  shows "worldInvariant (enqueueW now key r s d w)"
proof -
  from assms have d: "loopsDistinct w" and h: "loopsHoldRegistered w"
    and al: "registryAllocated w" and inj: "registryInjective w"
    by (simp_all add: worldInvariant_def)
  obtain q' where q': "snd (enqueueFollowupRun now key r s d (registryOf w)) key = Some q'"
    and dq: "draining q' = (case registryOf w key of Some e \<Rightarrow> draining e | None \<Rightarrow> False)"
    using enqueue_writes_key by blast
  show ?thesis
  proof (cases "FOLLOWUP_QUEUES w key")
    case None
    have w': "enqueueW now key r s d w =
            w\<lparr> heap := (heap w)(nextAddr w \<mapsto> q'),
               FOLLOWUP_QUEUES := (FOLLOWUP_QUEUES w)(key \<mapsto> nextAddr w),
               nextAddr := Suc (nextAddr w) \<rparr>"
      using None q' by (simp add: enqueueW_def Let_def)
    have fresh: "\<And>k. FOLLOWUP_QUEUES w k \<noteq> Some (nextAddr w)"
      using al by (auto simp add: registryAllocated_def)
    have 1: "loopsDistinct (enqueueW now key r s d w)"
      using d by (simp add: w' loopsDistinct_def)
    have 2: "loopsHoldRegistered (enqueueW now key r s d w)"
      using h None fresh unfolding w' loopsHoldRegistered_def
      by (auto)
    have 3: "registryAllocated (enqueueW now key r s d w)"
      using al unfolding w' registryAllocated_def by (auto simp add: less_Suc_eq)
    have 4: "registryInjective (enqueueW now key r s d w)"
      using inj fresh unfolding w' registryInjective_def by (auto split: if_splits)
    from 1 2 3 4 show ?thesis by (simp add: worldInvariant_def)
  next
    case (Some a)
    have w': "enqueueW now key r s d w = w\<lparr> heap := (heap w)(a \<mapsto> q'),
               FOLLOWUP_QUEUES := (FOLLOWUP_QUEUES w)(key \<mapsto> a), nextAddr := nextAddr w \<rparr>"
      using Some q' by (simp add: enqueueW_def Let_def)
    obtain e where e: "heap w a = Some e"
      using al Some by (auto simp add: registryAllocated_def)
    have dq': "draining q' = draining e"
      using dq Some e by (simp add: registryOf_def)
    have 1: "loopsDistinct (enqueueW now key r s d w)"
      using d by (simp add: w' loopsDistinct_def)
    have 2: "loopsHoldRegistered (enqueueW now key r s d w)"
      using h Some e dq' unfolding w' loopsHoldRegistered_def
      by (auto)
    have 3: "registryAllocated (enqueueW now key r s d w)"
      using al Some unfolding w' registryAllocated_def by (auto)
    have 4: "registryInjective (enqueueW now key r s d w)"
      using inj Some unfolding w' registryInjective_def by (auto split: if_splits)
    from 1 2 3 4 show ?thesis by (simp add: worldInvariant_def)
  qed
qed


lemma no_loop_when_idle:
  assumes "loopsHoldRegistered w" and "FOLLOWUP_QUEUES w key = Some a"
    and "heap w a = Some queue" and "\<not> draining queue"
  shows "key \<notin> loopKey ` set (loops w)"
proof
  assume "key \<in> loopKey ` set (loops w)"
  then obtain l where l: "l \<in> set (loops w)" and k: "loopKey l = key" by auto
  from assms(1) l have "FOLLOWUP_QUEUES w (loopKey l) = Some (loopQueue l)"
    and "\<exists>q. heap w (loopQueue l) = Some q \<and> draining q"
    by (auto simp add: loopsHoldRegistered_def)
  with k assms(2,3,4) show False by auto
qed

lemma worldInvariant_scheduleW:
  assumes "worldInvariant w"
  shows "worldInvariant (scheduleW key w)"
proof -
  from assms have d: "loopsDistinct w" and h: "loopsHoldRegistered w"
    and al: "registryAllocated w" and inj: "registryInjective w"
    by (simp_all add: worldInvariant_def)
  show ?thesis
  proof (cases "FOLLOWUP_QUEUES w key")
    case None
    then show ?thesis using assms by (simp add: scheduleW_def)
  next
    case (Some a)
    then obtain queue where q: "heap w a = Some queue"
      using al by (auto simp add: registryAllocated_def)
    show ?thesis
    proof (cases "draining queue")
      case True
      then show ?thesis using assms Some q by (simp add: scheduleW_def)
    next
      case idle: False
      have nl: "key \<notin> loopKey ` set (loops w)"
        using no_loop_when_idle [OF h Some q idle] .
      have other: "\<And>l. l \<in> set (loops w) \<Longrightarrow> loopQueue l \<noteq> a"
      proof
        fix l assume l: "l \<in> set (loops w)" and "loopQueue l = a"
        with h have "FOLLOWUP_QUEUES w (loopKey l) = Some a"
          by (auto simp add: loopsHoldRegistered_def)
        with inj Some have "loopKey l = key" by (auto simp add: registryInjective_def)
        with l nl show False by auto
      qed
      show ?thesis
      proof (cases "length (items queue) > 0 \<or> droppedCount queue > 0")
        case True
        have w': "scheduleW key w =
                w\<lparr> heap := (heap w)(a \<mapsto> queue\<lparr>draining := True\<rparr>),
                       loops := \<lparr> loopKey = key, loopQueue = a,
                                  forceIndividualCollect = False, awaitingCall = False \<rparr>
                                # loops w \<rparr>"
          using Some q idle True by (simp add: scheduleW_def)
        have 1: "loopsDistinct (scheduleW key w)"
          using d nl by (simp add: w' loopsDistinct_def)
        have 2: "loopsHoldRegistered (scheduleW key w)"
          using h Some other unfolding w' loopsHoldRegistered_def by auto
        have 3: "registryAllocated (scheduleW key w)"
          using al unfolding w' registryAllocated_def by auto
        have 4: "registryInjective (scheduleW key w)"
          using inj unfolding w' registryInjective_def by auto
        from 1 2 3 4 show ?thesis by (simp add: worldInvariant_def)
      next
        case False
        have w': "scheduleW key w =
                w\<lparr> heap := (heap w)(a \<mapsto> queue\<lparr>draining := False\<rparr>),
                       FOLLOWUP_QUEUES := (FOLLOWUP_QUEUES w)(key := None) \<rparr>"
          using Some q idle False by (simp add: scheduleW_def)
        have 1: "loopsDistinct (scheduleW key w)"
          using d by (simp add: w' loopsDistinct_def)
        have 2: "loopsHoldRegistered (scheduleW key w)"
          using h nl other unfolding w' loopsHoldRegistered_def by auto
        have 3: "registryAllocated (scheduleW key w)"
          using al unfolding w' registryAllocated_def by auto
        have 4: "registryInjective (scheduleW key w)"
          using inj unfolding w' registryInjective_def by (auto split: if_splits)
        from 1 2 3 4 show ?thesis by (simp add: worldInvariant_def)
      qed
    qed
  qed
qed

lemma worldInvariant_loop_removed:
  assumes "worldInvariant w" and "l \<in> set (loops w)"
  shows "worldInvariant (w\<lparr> heap := (heap w)(loopQueue l \<mapsto> queue),
                             loops := remove1 l (loops w) \<rparr>)"
    and "loopKey l \<notin> loopKey ` set (remove1 l (loops w))"
proof -
  from assms have d: "loopsDistinct w" and h: "loopsHoldRegistered w"
    and al: "registryAllocated w" and inj: "registryInjective w"
    by (simp_all add: worldInvariant_def)
  let ?w1 = "w\<lparr> heap := (heap w)(loopQueue l \<mapsto> queue), loops := remove1 l (loops w) \<rparr>"
  have dl: "distinct (loops w)"
    using d by (simp add: loopsDistinct_def distinct_map)
  have io: "inj_on loopKey (set (loops w))"
    using d by (simp add: loopsDistinct_def distinct_map)
  show nk: "loopKey l \<notin> loopKey ` set (remove1 l (loops w))"
  proof
    assume "loopKey l \<in> loopKey ` set (remove1 l (loops w))"
    then obtain l' where l': "l' \<in> set (remove1 l (loops w))" and k: "loopKey l' = loopKey l"
      by auto
    from l' dl have "l' \<in> set (loops w)" and "l' \<noteq> l" by auto
    with io k assms(2) show False by (auto dest: inj_onD)
  qed
  have other: "\<And>l'. l' \<in> set (remove1 l (loops w)) \<Longrightarrow> loopQueue l' \<noteq> loopQueue l"
  proof
    fix l' assume l': "l' \<in> set (remove1 l (loops w))" and e: "loopQueue l' = loopQueue l"
    from l' have m: "l' \<in> set (loops w)" by (meson notin_set_remove1)
    from h m have "FOLLOWUP_QUEUES w (loopKey l') = Some (loopQueue l')"
      by (auto simp add: loopsHoldRegistered_def)
    moreover from h assms(2) have "FOLLOWUP_QUEUES w (loopKey l) = Some (loopQueue l)"
      by (auto simp add: loopsHoldRegistered_def)
    ultimately have "loopKey l' = loopKey l"
      using inj e by (auto simp add: registryInjective_def)
    with l' nk show False by (metis imageI)
  qed
  have 1: "loopsDistinct ?w1"
    using d by (simp add: loopsDistinct_def distinct_map distinct_remove1)
      (meson Diff_subset inj_on_subset)
  have 2: "loopsHoldRegistered ?w1"
    unfolding loopsHoldRegistered_def
  proof
    fix l' assume l': "l' \<in> set (loops ?w1)"
    then have r: "l' \<in> set (remove1 l (loops w))" by simp
    then have m: "l' \<in> set (loops w)" by (meson notin_set_remove1)
    from other [OF r] h m
    show "FOLLOWUP_QUEUES ?w1 (loopKey l') = Some (loopQueue l') \<and>
          (\<exists>queue. heap ?w1 (loopQueue l') = Some queue \<and> draining queue)"
      by (auto simp add: loopsHoldRegistered_def)
  qed
  have 3: "registryAllocated ?w1"
    using al unfolding registryAllocated_def by auto
  have 4: "registryInjective ?w1"
    using inj unfolding registryInjective_def by auto
  from 1 2 3 4 show "worldInvariant ?w1" by (simp add: worldInvariant_def)
qed

lemma worldInvariant_unregister:
  assumes "worldInvariant w" and "key \<notin> loopKey ` set (loops w)"
  shows "worldInvariant (w\<lparr> FOLLOWUP_QUEUES := (FOLLOWUP_QUEUES w)(key := None) \<rparr>)"
  using assms
  unfolding worldInvariant_def loopsDistinct_def loopsHoldRegistered_def registryAllocated_def
    registryInjective_def
  by (auto split: if_splits)

lemma worldInvariant_finallyW:
  assumes "worldInvariant w" and "l \<in> set (loops w)"
  shows "worldInvariant (finallyW l queue w)"
proof -
  let ?w1 = "w\<lparr> heap := (heap w)(loopQueue l \<mapsto> queue\<lparr>draining := False\<rparr>),
                  loops := remove1 l (loops w) \<rparr>"
  have i1: "worldInvariant ?w1"
    and nk: "loopKey l \<notin> loopKey ` set (remove1 l (loops w))"
    using worldInvariant_loop_removed [OF assms] by auto
  show ?thesis
  proof (cases "drainFinally queue")
    case Discarded
    have "finallyW l queue w = ?w1\<lparr> FOLLOWUP_QUEUES := (FOLLOWUP_QUEUES ?w1)(loopKey l := None) \<rparr>"
      using Discarded by (simp add: finallyW_def Let_def)
    moreover have "worldInvariant (?w1\<lparr> FOLLOWUP_QUEUES := (FOLLOWUP_QUEUES ?w1)(loopKey l := None) \<rparr>)"
      using i1 nk by (intro worldInvariant_unregister) simp_all
    ultimately show ?thesis by simp
  next
    case (Rescheduled q1)
    have "finallyW l queue w = scheduleW (loopKey l) ?w1"
      using Rescheduled by (simp add: finallyW_def Let_def)
    with worldInvariant_scheduleW [OF i1] show ?thesis by simp
  qed
qed


lemma worldInvariant_loop_updated:
  assumes "worldInvariant w" and "l \<in> set (loops w)"
    and "loopKey l' = loopKey l" and "loopQueue l' = loopQueue l"
    and "heap w (loopQueue l) = Some queue" and "draining queue1 = draining queue"
  shows "worldInvariant (w\<lparr> heap := (heap w)(loopQueue l \<mapsto> queue1),
                             executorCalls := cs,
                             loops := map (\<lambda>x. if x = l then l' else x) (loops w) \<rparr>)"
proof -
  from assms(1) have d: "loopsDistinct w" and h: "loopsHoldRegistered w"
    and al: "registryAllocated w" and inj: "registryInjective w"
    by (simp_all add: worldInvariant_def)
  let ?w1 = "w\<lparr> heap := (heap w)(loopQueue l \<mapsto> queue1), executorCalls := cs,
                 loops := map (\<lambda>x. if x = l then l' else x) (loops w) \<rparr>"
  have keys: "map loopKey (map (\<lambda>x. if x = l then l' else x) (loops w)) = map loopKey (loops w)"
    using assms(3) by (intro nth_equalityI) auto
  have dq: "draining queue1"
    using h assms(2,5,6) by (auto simp add: loopsHoldRegistered_def)
  have "loops ?w1 = map (\<lambda>x. if x = l then l' else x) (loops w)" by simp
  then have "map loopKey (loops ?w1) = map loopKey (loops w)"
    using keys by (simp only:)
  then have 1: "loopsDistinct ?w1"
    using d unfolding loopsDistinct_def by (simp only:)
  have 2: "loopsHoldRegistered ?w1"
    unfolding loopsHoldRegistered_def
  proof
    fix x assume "x \<in> set (loops ?w1)"
    then have "x = l' \<or> x \<in> set (loops w)" by auto
    then show "FOLLOWUP_QUEUES ?w1 (loopKey x) = Some (loopQueue x) \<and>
          (\<exists>queue. heap ?w1 (loopQueue x) = Some queue \<and> draining queue)"
      using h assms(2,3,4) dq by (auto simp add: loopsHoldRegistered_def)
  qed
  have 3: "registryAllocated ?w1"
    using al unfolding registryAllocated_def by auto
  have 4: "registryInjective ?w1"
    using inj unfolding registryInjective_def by auto
  from 1 2 3 4 show ?thesis by (simp add: worldInvariant_def)
qed

lemma worldInvariant_passW:
  assumes "worldInvariant w" and "l \<in> set (loops w)" and "heap w (loopQueue l) = Some queue"
  shows "worldInvariant (passW R now l queue w)"
proof (cases "drainPass R now (forceIndividualCollect l) queue")
  case (Break queue1)
  then show ?thesis
    using worldInvariant_finallyW [OF assms(1,2)] by (simp add: passW_def)
next
  case (Call force1 queue1 r)
  have "draining queue1 = draining queue"
    using Call by (rule drainPass_draining(1))
  from worldInvariant_loop_updated [OF assms(1,2) _ _ assms(3) this,
      of "l\<lparr>forceIndividualCollect := force1, awaitingCall := True\<rparr>" "executorCalls w @ [r]"]
  show ?thesis using Call by (simp add: passW_def)
qed

lemma worldInvariant_settleW:
  assumes "worldInvariant w" and "l \<in> set (loops w)" and "heap w (loopQueue l) = Some queue"
  shows "worldInvariant (settleW ok l queue w)"
proof (cases "ok \<and> (length (items queue) > 0 \<or> droppedCount queue > 0)")
  case False
  then have "settleW ok l queue w = finallyW l queue w"
    by (auto simp add: settleW_def)
  then show ?thesis
    using worldInvariant_finallyW [OF assms(1,2)] by simp
next
  case True
  have e: "w\<lparr> heap := (heap w)(loopQueue l \<mapsto> queue), executorCalls := executorCalls w,
              loops := map (\<lambda>x. if x = l then l\<lparr>awaitingCall := False\<rparr> else x) (loops w) \<rparr>
           = w\<lparr> loops := map (\<lambda>x. if x = l then l\<lparr>awaitingCall := False\<rparr> else x) (loops w) \<rparr>"
    using assms(3) by (simp add: fun_upd_idem)
  have "worldInvariant (w\<lparr> heap := (heap w)(loopQueue l \<mapsto> queue),
              executorCalls := executorCalls w,
              loops := map (\<lambda>x. if x = l then l\<lparr>awaitingCall := False\<rparr> else x) (loops w) \<rparr>)"
    using worldInvariant_loop_updated [OF assms(1,2) _ _ assms(3) refl,
      of "l\<lparr>awaitingCall := False\<rparr>" "executorCalls w"] by simp
  then have "worldInvariant
      (w\<lparr> loops := map (\<lambda>x. if x = l then l\<lparr>awaitingCall := False\<rparr> else x) (loops w) \<rparr>)"
    by (simp only: e)
  moreover have "settleW ok l queue w =
      w\<lparr> loops := map (\<lambda>x. if x = l then l\<lparr>awaitingCall := False\<rparr> else x) (loops w) \<rparr>"
    using True by (simp add: settleW_def)
  ultimately show ?thesis by simp
qed

lemma worldInvariant_step:
  assumes "step R w w'" and "worldInvariant w"
  shows "worldInvariant w'"
  using assms
proof (induction rule: step.induct)
  case (enqueue R w now key r settings dedupeMode)
  then show ?case by (simp add: worldInvariant_enqueueW)
next
  case (schedule R w key)
  then show ?case by (simp add: worldInvariant_scheduleW)
next
  case (pass l w queue now R)
  then show ?case by (simp add: worldInvariant_passW)
next
  case (settle l w queue R ok)
  then show ?case by (simp add: worldInvariant_settleW)
qed

lemma worldInvariant_reachable:
  assumes "reachable R w"
  shows "worldInvariant w"
  using assms
proof (induction rule: reachable.induct)
  case (reach_init R)
  show ?case by (rule worldInvariant_initial)
next
  case (reach_step R w w')
  then show ?case using worldInvariant_step by blast
qed


lemma scheduleW_draining:
  "FOLLOWUP_QUEUES w key = Some a \<Longrightarrow> heap w a = Some queue \<Longrightarrow> draining queue \<Longrightarrow>
   scheduleW key w = w"
  by (simp add: scheduleW_def)

lemma filter_key_empty:
  "key \<notin> loopKey ` set ls \<Longrightarrow> filter (\<lambda>x. loopKey x = key) ls = []"
  by (induction ls) auto

lemma filter_key_le_one:
  "distinct (map loopKey ls) \<Longrightarrow> length (filter (\<lambda>l. loopKey l = key) ls) \<le> 1"
  by (induction ls) (auto simp add: filter_key_empty)

lemma finallyW_discards:
  assumes "worldInvariant w" and "l \<in> set (loops w)"
    and "items queue = []" and "droppedCount queue = 0"
  shows "FOLLOWUP_QUEUES (finallyW l queue w) (loopKey l) = None \<and>
         filter (\<lambda>x. loopKey x = loopKey l) (loops (finallyW l queue w)) = []"
proof -
  have nk: "loopKey l \<notin> loopKey ` set (remove1 l (loops w))"
    using worldInvariant_loop_removed(2) [OF assms(1,2)] .
  have "drainFinally queue = Discarded"
    using assms(3,4) by (simp add: drainFinally_def)
  then have f: "finallyW l queue w =
      w\<lparr> heap := (heap w)(loopQueue l \<mapsto> queue\<lparr>draining := False\<rparr>),
         loops := remove1 l (loops w),
         FOLLOWUP_QUEUES := (FOLLOWUP_QUEUES w)(loopKey l := None) \<rparr>"
    by (simp add: finallyW_def Let_def)
  have "filter (\<lambda>x. loopKey x = loopKey l) (remove1 l (loops w)) = []"
    using nk by (rule filter_key_empty)
  then show ?thesis by (simp add: f)
qed

lemma finallyW_reschedules:
  assumes "worldInvariant w" and "l \<in> set (loops w)"
    and "items queue \<noteq> [] \<or> 0 < droppedCount queue"
  shows "FOLLOWUP_QUEUES (finallyW l queue w) (loopKey l) = Some (loopQueue l) \<and>
         heap (finallyW l queue w) (loopQueue l) = Some (queue\<lparr>draining := True\<rparr>) \<and>
         filter (\<lambda>x. loopKey x = loopKey l) (loops (finallyW l queue w)) =
           [\<lparr> loopKey = loopKey l, loopQueue = loopQueue l,
              forceIndividualCollect = False, awaitingCall = False \<rparr>]"
proof -
  have nk: "loopKey l \<notin> loopKey ` set (remove1 l (loops w))"
    using worldInvariant_loop_removed(2) [OF assms(1,2)] .
  have reg: "FOLLOWUP_QUEUES w (loopKey l) = Some (loopQueue l)"
    using assms(1,2) by (auto simp add: worldInvariant_def loopsHoldRegistered_def)
  let ?w1 = "w\<lparr> heap := (heap w)(loopQueue l \<mapsto> queue\<lparr>draining := False\<rparr>),
                  loops := remove1 l (loops w) \<rparr>"
  have "drainFinally queue = Rescheduled (queue\<lparr>draining := False\<rparr>)"
    using assms(3) by (auto simp add: drainFinally_def)
  then have f: "finallyW l queue w = scheduleW (loopKey l) ?w1"
    by (simp add: finallyW_def Let_def)
  have s: "scheduleW (loopKey l) ?w1 =
      ?w1\<lparr> heap := (heap ?w1)(loopQueue l \<mapsto> queue\<lparr>draining := False\<rparr>\<lparr>draining := True\<rparr>),
            loops := \<lparr> loopKey = loopKey l, loopQueue = loopQueue l,
                       forceIndividualCollect = False, awaitingCall = False \<rparr> # loops ?w1 \<rparr>"
    using reg assms(3) by (auto simp add: scheduleW_def)
  have e: "filter (\<lambda>x. loopKey x = loopKey l) (remove1 l (loops w)) = []"
    using nk by (rule filter_key_empty)
  show ?thesis
    using reg e by (simp add: f s)
qed

text \<open>
  Claim C4. In every world reached from the empty registry by enqueues, calls of
  \<open>scheduleFollowupDrain\<close> and steps of the drain loops: no key has more than one live
  drain loop; \<open>scheduleFollowupDrain\<close> for a key whose registered queue has the draining
  flag set changes nothing; and when a live loop ends holding the queue state \<open>queue\<close>,
  its \<open>finally\<close> block unregisters the key and leaves no loop for it if no item is queued
  and the dropped count is zero, and otherwise leaves the key registered with the same
  object, the flag set, and exactly one loop for it, a new one.
\<close>

theorem one_drain_loop_per_key:
  assumes "reachable R w"
  shows "(\<forall>key. length (filter (\<lambda>l. loopKey l = key) (loops w)) \<le> 1) \<and>
         (\<forall>key a queue.
            FOLLOWUP_QUEUES w key = Some a \<and> heap w a = Some queue \<and> draining queue \<longrightarrow>
            scheduleW key w = w) \<and>
         (\<forall>l \<in> set (loops w). \<forall>queue.
            (items queue = [] \<and> droppedCount queue = 0 \<longrightarrow>
               FOLLOWUP_QUEUES (finallyW l queue w) (loopKey l) = None \<and>
               filter (\<lambda>x. loopKey x = loopKey l) (loops (finallyW l queue w)) = []) \<and>
            (items queue \<noteq> [] \<or> 0 < droppedCount queue \<longrightarrow>
               FOLLOWUP_QUEUES (finallyW l queue w) (loopKey l) = Some (loopQueue l) \<and>
               heap (finallyW l queue w) (loopQueue l) = Some (queue\<lparr>draining := True\<rparr>) \<and>
               filter (\<lambda>x. loopKey x = loopKey l) (loops (finallyW l queue w)) =
                 [\<lparr> loopKey = loopKey l, loopQueue = loopQueue l,
                    forceIndividualCollect = False, awaitingCall = False \<rparr>]))"
proof -
  have inv: "worldInvariant w"
    using assms by (rule worldInvariant_reachable)
  have a: "\<forall>key. length (filter (\<lambda>l. loopKey l = key) (loops w)) \<le> 1"
    using inv filter_key_le_one by (auto simp add: worldInvariant_def loopsDistinct_def)
  have b: "\<forall>key a queue.
            FOLLOWUP_QUEUES w key = Some a \<and> heap w a = Some queue \<and> draining queue \<longrightarrow>
            scheduleW key w = w"
    using scheduleW_draining by blast
  have c: "\<forall>l \<in> set (loops w). \<forall>queue.
            (items queue = [] \<and> droppedCount queue = 0 \<longrightarrow>
               FOLLOWUP_QUEUES (finallyW l queue w) (loopKey l) = None \<and>
               filter (\<lambda>x. loopKey x = loopKey l) (loops (finallyW l queue w)) = []) \<and>
            (items queue \<noteq> [] \<or> 0 < droppedCount queue \<longrightarrow>
               FOLLOWUP_QUEUES (finallyW l queue w) (loopKey l) = Some (loopQueue l) \<and>
               heap (finallyW l queue w) (loopQueue l) = Some (queue\<lparr>draining := True\<rparr>) \<and>
               filter (\<lambda>x. loopKey x = loopKey l) (loops (finallyW l queue w)) =
                 [\<lparr> loopKey = loopKey l, loopQueue = loopQueue l,
                    forceIndividualCollect = False, awaitingCall = False \<rparr>])"
    using finallyW_discards [OF inv] finallyW_reschedules [OF inv] by blast
  from a b c show ?thesis by blast
qed


theorem one_drain_loop_per_key_witness:
  "reachable (\<lambda>c. True) sampleDrainingWorld \<and>
   loops sampleDrainingWorld =
     [\<lparr> loopKey = lit ''k'', loopQueue = 0, forceIndividualCollect = False,
        awaitingCall = False \<rparr>] \<and>
   length (filter (\<lambda>l. loopKey l = lit ''k'') (loops sampleDrainingWorld)) \<le> 1 \<and>
   scheduleW (lit ''k'') sampleDrainingWorld = sampleDrainingWorld"
proof -
  let ?w1 = "enqueueW 1 (lit ''k'') (sampleRun ''a'' None None None) (sampleSettings Followup)
          DedupeMessageId (initialWorld :: nat World)"
  have r1: "reachable (\<lambda>c. True) ?w1"
    by (rule reachable.reach_step [OF reachable.reach_init step.enqueue])
  have r: "reachable (\<lambda>c. True) sampleDrainingWorld"
    unfolding sampleDrainingWorld_def
    by (rule reachable.reach_step [OF r1 step.schedule])
  have w1: "FOLLOWUP_QUEUES ?w1 (lit ''k'') = Some 0"
    "heap ?w1 0 = Some ((sampleQueue Followup 20 Summarize [sampleRun ''a'' None None None])
        \<lparr>lastEnqueuedAt := 1, debounceMs := 1000, lastRun := Some 7\<rparr>)"
    "loops ?w1 = []"
    by (simp_all add: enqueueW_def initialWorld_def registryOf_def enqueueFollowupRun_def
        getFollowupQueue_def isDeduplicated_def isRunAlreadyQueued_def truthy_def Let_def
        sampleSettings_def sampleQueue_def sampleRun_def DEFAULT_QUEUE_CAP_def
        DEFAULT_QUEUE_DEBOUNCE_MS_def DEFAULT_QUEUE_DROP_def)
  have w2: "FOLLOWUP_QUEUES sampleDrainingWorld (lit ''k'') = Some 0"
    "heap sampleDrainingWorld 0 =
       Some ((sampleQueue Followup 20 Summarize [sampleRun ''a'' None None None])
        \<lparr>lastEnqueuedAt := 1, debounceMs := 1000, lastRun := Some 7, draining := True\<rparr>)"
    "loops sampleDrainingWorld =
     [\<lparr> loopKey = lit ''k'', loopQueue = 0, forceIndividualCollect = False,
        awaitingCall = False \<rparr>]"
    unfolding sampleDrainingWorld_def
    by (simp_all add: scheduleW_def w1) (simp_all add: sampleQueue_def)
  have dr: "draining ((sampleQueue Followup 20 Summarize [sampleRun ''a'' None None None])
        \<lparr>lastEnqueuedAt := 1, debounceMs := 1000, lastRun := Some 7, draining := True\<rparr>)"
    by simp
  from one_drain_loop_per_key [OF r] w2 dr
  have "length (filter (\<lambda>l. loopKey l = lit ''k'') (loops sampleDrainingWorld)) \<le> 1"
    and "scheduleW (lit ''k'') sampleDrainingWorld = sampleDrainingWorld"
    by blast+
  with r w2(3) show ?thesis by simp
qed

section \<open>Properties of the session store\<close>

subsection \<open>loadSessionStore\<close>






subsection \<open>saveSessionStore\<close>

lemma set_showNat: "set (showNat n) \<subseteq> {48..57}"
proof (induction n rule: showNat.induct)
  case (1 n)
  show ?case
  proof (cases "n < 10")
    case True
    then show ?thesis by (subst showNat.simps) auto
  next
    case False
    have "n mod 10 < 10" by simp
    then have "48 + n mod 10 \<in> {48..57}" by auto
    with False 1 show ?thesis by (subst showNat.simps) auto
  qed
qed

lemma tmpPath_suffix:
  "tmpPath storePath pid uuid = storePath @ ([46] @ showNat pid @ [46] @ uuid @ lit ''.tmp'') \<and>
   (47 \<notin> set uuid \<longrightarrow> 47 \<notin> set ([46] @ showNat pid @ [46] @ uuid @ lit ''.tmp''))"
proof -
  have "47 \<notin> set (showNat pid)" using set_showNat [of pid] by auto
  then show ?thesis by (simp add: tmpPath_def lit_def)
qed

lemma tmpPath_neq: "tmpPath storePath pid uuid \<noteq> storePath"
  by (simp add: tmpPath_def)

lemma writeThenRename_cases:
  "writeThenRename fs k tmp storePath json =
     (if fs k (WriteFile tmp json) = FsOk
      then (fs (k + 1) (Rename tmp storePath), [WriteFile tmp json, Rename tmp storePath])
      else (fs k (WriteFile tmp json), [WriteFile tmp json]))"
  by (simp add: writeThenRename_def split: FsResult.splits)

lemma directWrite_cases:
  "directWrite fs k dir storePath json =
     (if fs k (Mkdir dir) = FsOk
      then (fs (k + 1) (WriteFile storePath json), [Mkdir dir, WriteFile storePath json])
      else (fs k (Mkdir dir), [Mkdir dir]))"
  by (simp add: directWrite_def split: FsResult.splits)

text \<open>The attempt, by the result of the write-then-rename and of the retry.\<close>

lemma saveAttempt_ok:
  assumes "fst (writeThenRename fs 1 tmp storePath json) = FsOk"
  shows "saveAttempt fs dir tmp storePath json =
           (Returns, snd (writeThenRename fs 1 tmp storePath json))"
  using assms by (cases "writeThenRename fs 1 tmp storePath json") (simp add: saveAttempt_def)

lemma saveAttempt_other:
  assumes "fst (writeThenRename fs 1 tmp storePath json) = FsFails c" and "\<not> isENOENT c"
  shows "saveAttempt fs dir tmp storePath json =
           (Throws c, snd (writeThenRename fs 1 tmp storePath json))"
  using assms by (cases "writeThenRename fs 1 tmp storePath json") (simp add: saveAttempt_def)

lemma saveAttempt_retry:
  assumes "fst (writeThenRename fs 1 tmp storePath json) = FsFails c" and "isENOENT c"
    and "ops1 = snd (writeThenRename fs 1 tmp storePath json)"
    and "r2 = fst (directWrite fs (1 + length ops1) dir storePath json)"
    and "ops2 = snd (directWrite fs (1 + length ops1) dir storePath json)"
  shows "saveAttempt fs dir tmp storePath json =
           ((case r2 of FsOk \<Rightarrow> Returns
             | FsFails c2 \<Rightarrow> if isENOENT c2 then Returns else Throws c2), ops1 @ ops2)"
  using assms
  by (cases "writeThenRename fs 1 tmp storePath json";
      cases "directWrite fs (1 + length ops1) dir storePath json")
    (simp add: saveAttempt_def split: FsResult.splits)


lemma saveAttempt_primary_ok:
  assumes "fs 1 (WriteFile tmp json) = FsOk" and "fs 2 (Rename tmp storePath) = FsOk"
  shows "saveAttempt fs dir tmp storePath json =
           (Returns, [WriteFile tmp json, Rename tmp storePath])"
proof -
  have "writeThenRename fs 1 tmp storePath json =
          (FsOk, [WriteFile tmp json, Rename tmp storePath])"
    using assms by (simp add: writeThenRename_cases numeral_2_eq_2)
  then show ?thesis
    using saveAttempt_ok [of fs tmp storePath json dir] by simp
qed

lemma saveAttempt_primary_fails:
  assumes "written = fs 1 (WriteFile tmp json)" and "renamed = fs 2 (Rename tmp storePath)"
    and "written = FsFails c \<or> (written = FsOk \<and> renamed = FsFails c)"
    and "ops1 = (if written = FsOk then [WriteFile tmp json, Rename tmp storePath]
                 else [WriteFile tmp json])"
    and "k = (if written = FsOk then 3 else 2)"
    and "remade = fs k (Mkdir dir)" and "direct = fs (k + 1) (WriteFile storePath json)"
    and "ops2 = (if remade = FsOk then [Mkdir dir, WriteFile storePath json] else [Mkdir dir])"
    and "r2 = (if remade = FsOk then direct else remade)"
  shows "saveAttempt fs dir tmp storePath json =
           (if isENOENT c
            then ((case r2 of FsOk \<Rightarrow> Returns
                   | FsFails c2 \<Rightarrow> if isENOENT c2 then Returns else Throws c2), ops1 @ ops2)
            else (Throws c, ops1))"
proof -
  have w: "writeThenRename fs 1 tmp storePath json = (FsFails c, ops1)"
    using assms(1-4) by (auto simp add: writeThenRename_cases numeral_2_eq_2)
  have k: "1 + length ops1 = k" using assms(4,5) by simp
  have d: "directWrite fs k dir storePath json = (r2, ops2)"
    using assms(6-9) by (simp add: directWrite_cases)
  show ?thesis
  proof (cases "isENOENT c")
    case True
    from saveAttempt_retry [where fs = fs and tmp = tmp and storePath = storePath
        and json = json and c = c and dir = dir, OF _ True refl refl refl] w k d
    show ?thesis using True by simp
  next
    case False
    from saveAttempt_other [where fs = fs and tmp = tmp and storePath = storePath
        and json = json and c = c and dir = dir, OF _ False] w
    show ?thesis using False by simp
  qed
qed

lemma saveSessionStore_mkdir_fails:
  assumes "fs 0 (Mkdir (dirname storePath)) = FsFails c"
  shows "saveSessionStore fs stringify dirname pid uuid storePath st cache =
           (Throws c, [CacheDelete storePath, FsCall (Mkdir (dirname storePath))],
            cache(storePath := None))"
  using assms by (simp add: saveSessionStore_def invalidateSessionStoreCache_def)

lemma saveSessionStore_attempt:
  assumes "fs 0 (Mkdir (dirname storePath)) = FsOk"
    and "saveAttempt fs (dirname storePath) (tmpPath storePath pid uuid) storePath (stringify st)
           = (completion, ops)"
  shows "saveSessionStore fs stringify dirname pid uuid storePath st cache =
           ((case fs (1 + length ops) (Rm (tmpPath storePath pid uuid)) of
               FsOk \<Rightarrow> completion | FsFails c \<Rightarrow> Throws c),
            CacheDelete storePath
              # map FsCall (Mkdir (dirname storePath) # ops @ [Rm (tmpPath storePath pid uuid)]),
            cache(storePath := None))"
  using assms
  by (simp add: saveSessionStore_def invalidateSessionStoreCache_def Let_def
      split: FsResult.splits)

text \<open>
  Claim C7, as amended. \<open>saveSessionStore\<close> first deletes the cached entry of the
  store path, and every write it makes carries the serialization of the whole mapping. The
  temporary file is the store path followed by a suffix without a directory separator, so
  it lies in the same directory. When the first \<open>mkdir\<close> fails the error propagates and
  nothing is written. Otherwise the temporary file is always removed last, and an error of
  that removal propagates. On the primary path the mapping is written to the temporary file,
  which is then renamed over the target. The target is written directly, and so not
  atomically, only on the retry: when the write or the rename failed with \<open>ENOENT\<close>, the
  directory is created a second time, once, and the mapping is written to the store path
  itself. A retry that fails with \<open>ENOENT\<close> is dropped and the call returns; any other error,
  of the primary path or of the retry, propagates, and then the directory is not created a
  second time unless the primary error was \<open>ENOENT\<close>.
\<close>

theorem save_writes_through_temp_or_retries:
  assumes "dir = dirname storePath" and "json = stringify st"
    and "tmp = tmpPath storePath pid uuid"
    and "res = saveSessionStore fs stringify dirname pid uuid storePath st cache"
    and "completion = fst res" and "events = fst (snd res)" and "cache' = snd (snd res)"
    and "written = fs 1 (WriteFile tmp json)" and "renamed = fs 2 (Rename tmp storePath)"
    and "primaryFails = (\<lambda>c. written = FsFails c \<or> (written = FsOk \<and> renamed = FsFails c))"
    and "k = (if written = FsOk then 3 else 2)"
    and "remade = fs k (Mkdir dir)" and "direct = fs (k + 1) (WriteFile storePath json)"
    and "retryFails = (\<lambda>c. remade = FsFails c \<or> (remade = FsOk \<and> direct = FsFails c))"
    and "removed = fs (length events - 2) (Rm tmp)"
  shows "events \<noteq> [] \<and> hd events = CacheDelete storePath \<and> cache' = cache(storePath := None) \<and>
         (\<forall>p c. FsCall (WriteFile p c) \<in> set events \<longrightarrow> c = json \<and> (p = tmp \<or> p = storePath)) \<and>
         tmp = storePath @ ([46] @ showNat pid @ [46] @ uuid @ lit ''.tmp'') \<and>
         (47 \<notin> set uuid \<longrightarrow> 47 \<notin> set ([46] @ showNat pid @ [46] @ uuid @ lit ''.tmp'')) \<and>
         (\<forall>c. fs 0 (Mkdir dir) = FsFails c \<longrightarrow>
            completion = Throws c \<and> events = [CacheDelete storePath, FsCall (Mkdir dir)]) \<and>
         (fs 0 (Mkdir dir) = FsOk \<longrightarrow>
            last events = FsCall (Rm tmp) \<and>
            (\<forall>c. removed = FsFails c \<longrightarrow> completion = Throws c) \<and>
            (written = FsOk \<and> renamed = FsOk \<longrightarrow>
               events = [CacheDelete storePath, FsCall (Mkdir dir), FsCall (WriteFile tmp json),
                         FsCall (Rename tmp storePath), FsCall (Rm tmp)] \<and>
               (removed = FsOk \<longrightarrow> completion = Returns)) \<and>
            (FsCall (WriteFile storePath json) \<in> set events \<longrightarrow>
               (\<exists>c. primaryFails c \<and> isENOENT c)) \<and>
            (\<forall>c. primaryFails c \<and> \<not> isENOENT c \<longrightarrow>
               length (filter (\<lambda>e. e = FsCall (Mkdir dir)) events) = 1 \<and>
               (removed = FsOk \<longrightarrow> completion = Throws c)) \<and>
            (\<forall>c. primaryFails c \<and> isENOENT c \<longrightarrow>
               length (filter (\<lambda>e. e = FsCall (Mkdir dir)) events) = 2) \<and>
            (\<forall>c. primaryFails c \<and> isENOENT c \<longrightarrow>
               (remade = FsOk \<longrightarrow> FsCall (WriteFile storePath json) \<in> set events) \<and>
               (removed = FsOk \<longrightarrow>
                  (remade = FsOk \<and> direct = FsOk \<longrightarrow> completion = Returns) \<and>
                  (\<forall>c2. retryFails c2 \<and> isENOENT c2 \<longrightarrow> completion = Returns) \<and>
                  (\<forall>c2. retryFails c2 \<and> \<not> isENOENT c2 \<longrightarrow> completion = Throws c2))))"
proof -
  have neq: "tmp \<noteq> storePath" using assms(3) tmpPath_neq by simp
  have suffix: "tmp = storePath @ ([46] @ showNat pid @ [46] @ uuid @ lit ''.tmp'') \<and>
         (47 \<notin> set uuid \<longrightarrow> 47 \<notin> set ([46] @ showNat pid @ [46] @ uuid @ lit ''.tmp''))"
    using assms(3) tmpPath_suffix by simp
  show ?thesis
  proof (cases "fs 0 (Mkdir dir)")
    case (FsFails c0)
    have "res = (Throws c0, [CacheDelete storePath, FsCall (Mkdir dir)], cache(storePath := None))"
      using FsFails assms(1,4) saveSessionStore_mkdir_fails by simp
    then show ?thesis
      using FsFails assms(5,6,7) suffix by simp
  next
    case FsOk
    then have mk: "fs 0 (Mkdir (dirname storePath)) = FsOk" using assms(1) by simp
    obtain comp ops where att: "saveAttempt fs dir tmp storePath json = (comp, ops)"
      by (cases "saveAttempt fs dir tmp storePath json") auto
    have r: "res = ((case fs (1 + length ops) (Rm tmp) of FsOk \<Rightarrow> comp | FsFails c \<Rightarrow> Throws c),
                    CacheDelete storePath # map FsCall (Mkdir dir # ops @ [Rm tmp]),
                    cache(storePath := None))"
      using saveSessionStore_attempt [where fs = fs and dirname = dirname and storePath = storePath
          and pid = pid and uuid = uuid and stringify = stringify and st = st
          and completion = comp and ops = ops and cache = cache]
        mk att assms(1,2,3,4) by simp
    have ev: "events = CacheDelete storePath # map FsCall (Mkdir dir # ops @ [Rm tmp])"
      and ca: "cache' = cache(storePath := None)"
      and co: "completion = (case fs (1 + length ops) (Rm tmp) of FsOk \<Rightarrow> comp | FsFails c \<Rightarrow> Throws c)"
      using r assms(5,6,7) by simp_all
    have rmv: "removed = fs (1 + length ops) (Rm tmp)"
      using assms(15) ev by simp
    have basic: "events \<noteq> [] \<and> hd events = CacheDelete storePath \<and> last events = FsCall (Rm tmp)"
      using ev by simp
    have rmfail: "\<forall>c. removed = FsFails c \<longrightarrow> completion = Throws c"
      using co rmv by simp
    have rmok: "removed = FsOk \<longrightarrow> completion = comp"
      using co rmv by simp
    have nofail: "\<forall>c. fs 0 (Mkdir dir) \<noteq> FsFails c"
      using FsOk by simp
    show ?thesis
    proof (cases "written = FsOk \<and> renamed = FsOk")
      case True
      then have a: "comp = Returns" "ops = [WriteFile tmp json, Rename tmp storePath]"
        using saveAttempt_primary_ok [of fs tmp json storePath dir] att assms(8,9) by simp_all
      have nf: "\<And>c. \<not> primaryFails c" using True assms(10) by simp
      have evs: "events = [CacheDelete storePath, FsCall (Mkdir dir), FsCall (WriteFile tmp json),
                         FsCall (Rename tmp storePath), FsCall (Rm tmp)]"
        using ev a by simp
      show ?thesis
        using FsOk True nf evs ca rmfail rmok a(1) suffix neq by simp
    next
      case False
      then obtain c where pf: "written = FsFails c \<or> (written = FsOk \<and> renamed = FsFails c)"
        by (cases written; cases renamed) auto
      then have pfc: "primaryFails c" using assms(10) by simp
      have uniq: "\<And>c'. primaryFails c' \<Longrightarrow> c' = c"
        using pf assms(10) by auto
      let ?ops1 = "if written = FsOk then [WriteFile tmp json, Rename tmp storePath]
                 else [WriteFile tmp json]"
      let ?ops2 = "if remade = FsOk then [Mkdir dir, WriteFile storePath json] else [Mkdir dir]"
      let ?r2 = "if remade = FsOk then direct else remade"
      have sa: "saveAttempt fs dir tmp storePath json =
           (if isENOENT c
            then ((case ?r2 of FsOk \<Rightarrow> Returns
                   | FsFails c2 \<Rightarrow> if isENOENT c2 then Returns else Throws c2), ?ops1 @ ?ops2)
            else (Throws c, ?ops1))"
        using saveAttempt_primary_fails [OF assms(8) assms(9) pf refl assms(11) assms(12) assms(13) refl refl] .
      show ?thesis
      proof (cases "isENOENT c")
        case other: False
        from sa att other have a: "comp = Throws c" "ops = ?ops1" by simp_all
        have one: "length (filter (\<lambda>e. e = FsCall (Mkdir dir)) events) = 1"
          using ev a(2) by (cases "written = FsOk") simp_all
        have nod: "FsCall (WriteFile storePath json) \<notin> set events"
          using ev a(2) neq by (cases "written = FsOk") auto
        have wr: "\<forall>p c. FsCall (WriteFile p c) \<in> set events \<longrightarrow> c = json \<and> (p = tmp \<or> p = storePath)"
          using ev a(2) by (cases "written = FsOk") auto
        have c5: "\<forall>c'. primaryFails c' \<and> \<not> isENOENT c' \<longrightarrow>
               length (filter (\<lambda>e. e = FsCall (Mkdir dir)) events) = 1 \<and>
               (removed = FsOk \<longrightarrow> completion = Throws c')"
          using uniq one rmok a(1) by blast
        have c6: "\<forall>c'. \<not> (primaryFails c' \<and> isENOENT c')"
          using uniq other by blast
        show ?thesis
          using nofail False basic ca wr suffix rmfail nod c5 c6 by blast
      next
        case enoent: True
        from sa att enoent have a: "comp = (case ?r2 of FsOk \<Rightarrow> Returns
                   | FsFails c2 \<Rightarrow> if isENOENT c2 then Returns else Throws c2)"
          "ops = ?ops1 @ ?ops2" by simp_all
        have two: "length (filter (\<lambda>e. e = FsCall (Mkdir dir)) events) = 2"
          using ev a(2) by (cases "written = FsOk"; cases "remade = FsOk") simp_all
        have wr: "\<forall>p c. FsCall (WriteFile p c) \<in> set events \<longrightarrow> c = json \<and> (p = tmp \<or> p = storePath)"
          using ev a(2) by (cases "written = FsOk"; cases "remade = FsOk") auto
        have dw: "remade = FsOk \<longrightarrow> FsCall (WriteFile storePath json) \<in> set events"
          using ev a(2) by (cases "written = FsOk") auto
        have out1: "remade = FsOk \<and> direct = FsOk \<longrightarrow> comp = Returns"
          using a(1) by simp
        have out2: "\<forall>c2. retryFails c2 \<and> isENOENT c2 \<longrightarrow> comp = Returns"
          using a(1) assms(14) by auto
        have out3: "\<forall>c2. retryFails c2 \<and> \<not> isENOENT c2 \<longrightarrow> comp = Throws c2"
          using a(1) assms(14) by auto
        have c5: "\<forall>c'. \<not> (primaryFails c' \<and> \<not> isENOENT c')"
          using uniq enoent by blast
        have c4: "FsCall (WriteFile storePath json) \<in> set events \<longrightarrow>
               (\<exists>c. primaryFails c \<and> isENOENT c)"
          using pfc enoent by blast
        have c6: "\<forall>c'. primaryFails c' \<and> isENOENT c' \<longrightarrow>
               length (filter (\<lambda>e. e = FsCall (Mkdir dir)) events) = 2"
          using two by blast
        have c7: "\<forall>c'. primaryFails c' \<and> isENOENT c' \<longrightarrow>
               (remade = FsOk \<longrightarrow> FsCall (WriteFile storePath json) \<in> set events) \<and>
               (removed = FsOk \<longrightarrow>
                  (remade = FsOk \<and> direct = FsOk \<longrightarrow> completion = Returns) \<and>
                  (\<forall>c2. retryFails c2 \<and> isENOENT c2 \<longrightarrow> completion = Returns) \<and>
                  (\<forall>c2. retryFails c2 \<and> \<not> isENOENT c2 \<longrightarrow> completion = Throws c2))"
          using dw rmok out1 out2 out3 by simp
        show ?thesis
          using nofail False basic ca wr suffix rmfail c4 c5 c6 c7 by blast
      qed
    qed
  qed
qed

text \<open>With a file system in which every call succeeds, the calls are the cache deletion,
  \<open>mkdir\<close>, the write of the temporary file, the rename and the removal.\<close>

theorem save_writes_through_temp_or_retries_witness:
  "saveSessionStore (\<lambda>i op. FsOk) (\<lambda>st. lit ''{}'') (\<lambda>p. lit ''/s'') 7 (lit ''u'')
     (lit ''/s/sessions.json'') () Map.empty
   = (Returns,
      [CacheDelete (lit ''/s/sessions.json''), FsCall (Mkdir (lit ''/s'')),
       FsCall (WriteFile (tmpPath (lit ''/s/sessions.json'') 7 (lit ''u'')) (lit ''{}'')),
       FsCall (Rename (tmpPath (lit ''/s/sessions.json'') 7 (lit ''u'')) (lit ''/s/sessions.json'')),
       FsCall (Rm (tmpPath (lit ''/s/sessions.json'') 7 (lit ''u'')))],
      Map.empty)"
proof -
  let ?res = "saveSessionStore (\<lambda>i op. FsOk) (\<lambda>st. lit ''{}'') (\<lambda>p. lit ''/s'') 7 (lit ''u'')
     (lit ''/s/sessions.json'') () (Map.empty :: unit SessionStoreCache)"
  note T = save_writes_through_temp_or_retries
    [where fs = "\<lambda>i op. FsOk" and stringify = "\<lambda>st. lit ''{}''" and dirname = "\<lambda>p. lit ''/s''"
       and pid = 7 and uuid = "lit ''u''" and storePath = "lit ''/s/sessions.json''" and st = "()"
       and cache = "Map.empty :: unit SessionStoreCache",
     OF refl refl refl refl refl refl refl refl refl refl refl refl refl refl refl]
  from T have "fst (snd ?res) =
      [CacheDelete (lit ''/s/sessions.json''), FsCall (Mkdir (lit ''/s'')),
       FsCall (WriteFile (tmpPath (lit ''/s/sessions.json'') 7 (lit ''u'')) (lit ''{}'')),
       FsCall (Rename (tmpPath (lit ''/s/sessions.json'') 7 (lit ''u'')) (lit ''/s/sessions.json'')),
       FsCall (Rm (tmpPath (lit ''/s/sessions.json'') 7 (lit ''u'')))]"
    and "fst ?res = Returns" and "snd (snd ?res) = Map.empty"
    by simp_all
  then show ?thesis by (metis prod.collapse)
qed

text \<open>
  Claim C7 as stated does not hold: not every write goes through the temporary file and a
  rename. When the write of the temporary file fails with \<open>ENOENT\<close> the call returns normally
  after writing the mapping directly to the store path, a write that a reader of the store
  can observe half done.
\<close>

theorem save_retry_writes_target_directly_counterexample:
  "saveSessionStore sampleFsEnoentOnce (\<lambda>st. lit ''{}'') (\<lambda>p. lit ''/s'') 7 (lit ''u'')
     (lit ''/s/sessions.json'') () Map.empty
   = (Returns,
      [CacheDelete (lit ''/s/sessions.json''), FsCall (Mkdir (lit ''/s'')),
       FsCall (WriteFile (tmpPath (lit ''/s/sessions.json'') 7 (lit ''u'')) (lit ''{}'')),
       FsCall (Mkdir (lit ''/s'')),
       FsCall (WriteFile (lit ''/s/sessions.json'') (lit ''{}'')),
       FsCall (Rm (tmpPath (lit ''/s/sessions.json'') 7 (lit ''u'')))],
      Map.empty)"
  by (simp add: saveSessionStore_def saveAttempt_def writeThenRename_def directWrite_def
      sampleFsEnoentOnce_def isENOENT_def invalidateSessionStoreCache_def Let_def)

section \<open>Properties of session initialisation and the heartbeat\<close>

lemma idleMinutesOf_bounds:
  "1 \<le> idleMinutesOf configured \<and> idleMinutesOf None = 60 \<and>
   (\<forall>m. 1 \<le> m \<longrightarrow> idleMinutesOf (Some m) = m) \<and>
   (\<forall>m. m \<le> 1 \<longrightarrow> idleMinutesOf (Some m) = 1)"
  by (auto simp add: idleMinutesOf_def DEFAULT_IDLE_MINUTES_def split: option.splits)












section \<open>Properties of the gateway's agent method\<close>

lemma agentBegin_suspends:
  assumes "validParams env" and "dedupe g (dedupeKey request) = None"
    and "requestedSessionKey request = Some requested" and "\<not> sendPolicyDeny env"
    and "storeLoaded env" and "storePathKnown env"
  shows "agentBegin env frame request g =
           g\<lparr> awaitingSave := awaitingSave g @ [(frame, request, env)] \<rparr>"
  using assms by (simp add: agentBegin_def)

lemma agentBegin_cached:
  assumes "validParams env" and "dedupe g (dedupeKey request) = Some cached"
  shows "agentBegin env frame request g =
           g\<lparr> responded := responded g @
                 [(frame, \<lparr> respOk = dedupeOk cached, respPayload = Some (dedupePayload cached),
                            respError = dedupeError cached, respMeta = MetaCached \<rparr>)] \<rparr>"
  using assms by (simp add: agentBegin_def respond_def)

lemma agentAccept_fields:
  "dedupe (agentAccept env frame request g) =
     (dedupe g)(dedupeKey request \<mapsto>
        \<lparr> dedupeTs = nowStored env, dedupeOk = True,
          dedupePayload = AcceptedPayload (idempotencyKey request) (nowAccepted env),
          dedupeError = None \<rparr>) \<and>
   agentCommandCalls (agentAccept env frame request g) =
     agentCommandCalls g @ [idempotencyKey request] \<and>
   responded (agentAccept env frame request g) =
     responded g @
       [(frame, \<lparr> respOk = True,
                  respPayload = Some (AcceptedPayload (idempotencyKey request) (nowAccepted env)),
                  respError = None, respMeta = MetaRun (idempotencyKey request) \<rparr>)] \<and>
   awaitingSave (agentAccept env frame request g) = awaitingSave g \<and>
   inFlight (agentAccept env frame request g) = inFlight g @ [(frame, request)]"
  by (simp add: agentAccept_def respond_def Let_def)

lemma agentResume_first:
  assumes "awaitingSave g = (frame, request, env) # rest" and "saveResolves env"
    and "\<forall>p \<in> set rest. fst p \<noteq> frame"
  shows "agentResume frame g = agentAccept env frame request (g\<lparr> awaitingSave := rest \<rparr>)"
proof -
  have "filter (\<lambda>(f, request, env). f \<noteq> frame) rest = rest"
    using assms(3) by (induction rest) auto
  then show ?thesis using assms(1,2) by (simp add: agentResume_def)
qed

lemma agentResume_second:
  assumes "awaitingSave g = [(other, request0, env0), (frame, request, env)]"
    and "saveResolves env" and "other \<noteq> frame"
  shows "agentResume frame g =
           agentAccept env frame request (g\<lparr> awaitingSave := [(other, request0, env0)] \<rparr>)"
  using assms by (simp add: agentResume_def)


lemma agentSettled_only:
  assumes "inFlight g = [(frame, request)]"
  shows "agentSettled frame outcome now g =
     (case outcome of
        RunResolves result \<Rightarrow>
          g\<lparr> inFlight := [],
              dedupe := (dedupe g)(dedupeKey request \<mapsto>
                 \<lparr> dedupeTs = now, dedupeOk = True,
                   dedupePayload = OkPayload (idempotencyKey request) result,
                   dedupeError = None \<rparr>),
              responded := responded g @
                 [(frame, \<lparr> respOk = True,
                            respPayload = Some (OkPayload (idempotencyKey request) result),
                            respError = None, respMeta = MetaRun (idempotencyKey request) \<rparr>)] \<rparr>
      | RunRejects message logged \<Rightarrow>
          g\<lparr> inFlight := [],
              dedupe := (dedupe g)(dedupeKey request \<mapsto>
                 \<lparr> dedupeTs = now, dedupeOk = False,
                   dedupePayload = ErrorPayload (idempotencyKey request) message,
                   dedupeError = Some (ErrorShape UNAVAILABLE message) \<rparr>),
              responded := responded g @
                 [(frame, \<lparr> respOk = False,
                            respPayload = Some (ErrorPayload (idempotencyKey request) message),
                            respError = Some (ErrorShape UNAVAILABLE message),
                            respMeta = MetaRunError (idempotencyKey request) logged \<rparr>)] \<rparr>)"
  using assms by (simp add: agentSettled_def respond_def Let_def split: RunOutcome.splits)

text \<open>
  Claim C5. Two \<open>agent\<close> requests carry the same idempotency key and a session key for which
  the session store is saved, and no acknowledgement is stored under the key yet. When the
  second request arrives after the first handler has stored its acknowledgement
  (\<open>sequential\<close>), it is answered from \<open>context.dedupe\<close> with the same accepted payload, and
  \<open>agentCommand\<close> has been called once; a request that arrives after the run has settled
  (\<open>settled\<close>) is answered with the stored final payload, the result or the error, and
  \<open>agentCommand\<close> is not called again. When the second request arrives while the first
  handler is still at its \<open>await\<close> of \<open>saveSessionStore\<close> (\<open>overlapping\<close>), neither handler finds
  an acknowledgement, both are answered as accepted with the idempotency key as run id, and
  \<open>agentCommand\<close> is called twice: the look-up in \<open>context.dedupe\<close> and the store of the
  acknowledgement are separated by the \<open>await\<close>.
\<close>

theorem overlapping_agent_submits_start_two_runs:
  fixes g :: "'res Gateway"
  assumes "awaitingSave g = []" and "inFlight g = []"
    and "dedupe g (dedupeKey request) = None"
    and "requestedSessionKey request = Some requested"
    and "\<forall>env \<in> {env1, env2, env3}.
           validParams env \<and> \<not> sendPolicyDeny env \<and> storeLoaded env \<and> storePathKnown env \<and>
           saveResolves env"
    and "f1 \<noteq> f2"
    and "idem = idempotencyKey request"
    and "accepted = (\<lambda>env. \<lparr> respOk = True,
                              respPayload = Some (AcceptedPayload idem (nowAccepted env)),
                              respError = None, respMeta = MetaRun idem \<rparr>)"
    and "overlapping = gatewayRun g
           [RequestArrives f1 request env1, RequestArrives f2 request env2,
            SaveSettles f1, SaveSettles f2]"
    and "sequential = gatewayRun g
           [RequestArrives f1 request env1, SaveSettles f1, RequestArrives f2 request env2]"
    and "settled = gatewayRun sequential
           [RunSettles f1 outcome now, RequestArrives f3 request env3]"
    and "final = (case outcome of
                    RunResolves result \<Rightarrow>
                      \<lparr> respOk = True, respPayload = Some (OkPayload idem result),
                        respError = None, respMeta = MetaCached \<rparr>
                  | RunRejects message logged \<Rightarrow>
                      \<lparr> respOk = False, respPayload = Some (ErrorPayload idem message),
                        respError = Some (ErrorShape UNAVAILABLE message),
                        respMeta = MetaCached \<rparr>)"
  shows "agentCommandCalls overlapping = agentCommandCalls g @ [idem, idem] \<and>
         responded overlapping = responded g @ [(f1, accepted env1), (f2, accepted env2)] \<and>
         agentCommandCalls sequential = agentCommandCalls g @ [idem] \<and>
         responded sequential =
           responded g @ [(f1, accepted env1), (f2, (accepted env1)\<lparr> respMeta := MetaCached \<rparr>)] \<and>
         agentCommandCalls settled = agentCommandCalls g @ [idem] \<and>
         length (responded settled) = length (responded sequential) + 2 \<and>
         last (responded settled) = (f3, final)"
proof -
  have e: "validParams env1" "\<not> sendPolicyDeny env1" "storeLoaded env1" "storePathKnown env1"
      "saveResolves env1"
      "validParams env2" "\<not> sendPolicyDeny env2" "storeLoaded env2" "storePathKnown env2"
      "saveResolves env2"
      "validParams env3"
    using assms(5) by simp_all
  let ?key = "dedupeKey request"
  \<comment> \<open>both handlers reach the await before either has stored its acknowledgement\<close>
  let ?a1 = "g\<lparr> awaitingSave := [(f1, request, env1)] \<rparr>"
  have b1: "agentBegin env1 f1 request g = ?a1"
    using agentBegin_suspends [OF e(1) assms(3) assms(4) e(2) e(3) e(4), of f1] assms(1)
    by simp
  let ?a2 = "g\<lparr> awaitingSave := [(f1, request, env1), (f2, request, env2)] \<rparr>"
  have b2: "agentBegin env2 f2 request ?a1 = ?a2"
    using agentBegin_suspends [where env = env2 and g = ?a1 and request = request
        and requested = requested and frame = f2] e assms(3,4)
    by simp
  let ?a3 = "agentAccept env1 f1 request (g\<lparr> awaitingSave := [(f2, request, env2)] \<rparr>)"
  have b3: "agentResume f1 ?a2 = ?a3"
    using agentResume_first [where g = ?a2 and frame = f1 and request = request and env = env1
        and rest = "[(f2, request, env2)]"] e(5) assms(6)
    by simp
  have aw3: "awaitingSave ?a3 = [(f2, request, env2)]"
    by (simp add: agentAccept_fields)
  let ?a4 = "agentAccept env2 f2 request (?a3\<lparr> awaitingSave := [] \<rparr>)"
  have b4: "agentResume f2 ?a3 = ?a4"
    using agentResume_first [where g = ?a3 and frame = f2 and request = request and env = env2
        and rest = "[]"] e(10) aw3
    by simp
  have ov: "overlapping = ?a4"
    using assms(9) b1 b2 b3 b4 by (simp add: gatewayRun_def)
  have o1: "agentCommandCalls overlapping = agentCommandCalls g @ [idem, idem]"
    using ov assms(7) by (simp add: agentAccept_fields)
  have o2: "responded overlapping = responded g @ [(f1, accepted env1), (f2, accepted env2)]"
    using ov assms(7,8) by (simp add: agentAccept_fields)
  \<comment> \<open>the second handler starts after the first has stored its acknowledgement\<close>
  let ?s2 = "agentAccept env1 f1 request (g\<lparr> awaitingSave := [] \<rparr>)"
  have c2: "agentResume f1 ?a1 = ?s2"
    using agentResume_first [where g = ?a1 and frame = f1 and request = request and env = env1
        and rest = "[]"] e(5)
    by simp
  let ?ack = "\<lparr> dedupeTs = nowStored env1, dedupeOk = True,
          dedupePayload = AcceptedPayload (idempotencyKey request) (nowAccepted env1),
          dedupeError = None \<rparr> :: 'res DedupeEntry"
  have d2: "dedupe ?s2 ?key = Some ?ack"
    by (simp add: agentAccept_fields)
  let ?s3 = "?s2\<lparr> responded := responded ?s2 @
                 [(f2, \<lparr> respOk = dedupeOk ?ack, respPayload = Some (dedupePayload ?ack),
                         respError = dedupeError ?ack, respMeta = MetaCached \<rparr>)] \<rparr>"
  have c3: "agentBegin env2 f2 request ?s2 = ?s3"
    using agentBegin_cached [OF e(6) d2, of f2] .
  have sq: "sequential = ?s3"
    using assms(10) b1 c2 c3 by (simp add: gatewayRun_def)
  have s1: "agentCommandCalls sequential = agentCommandCalls g @ [idem]"
    using sq assms(7) by (simp add: agentAccept_fields)
  have s2: "responded sequential =
           responded g @ [(f1, accepted env1), (f2, (accepted env1)\<lparr> respMeta := MetaCached \<rparr>)]"
    using sq assms(7,8) by (simp add: agentAccept_fields)
  \<comment> \<open>a retry after the run has settled\<close>
  have fl: "inFlight sequential = [(f1, request)]"
    using sq assms(2) by (simp add: agentAccept_fields)
  let ?t1 = "agentSettled f1 outcome now sequential"
  have t1: "?t1 = (case outcome of
        RunResolves result \<Rightarrow>
          sequential\<lparr> inFlight := [],
              dedupe := (dedupe sequential)(?key \<mapsto>
                 \<lparr> dedupeTs = now, dedupeOk = True,
                   dedupePayload = OkPayload (idempotencyKey request) result,
                   dedupeError = None \<rparr>),
              responded := responded sequential @
                 [(f1, \<lparr> respOk = True,
                            respPayload = Some (OkPayload (idempotencyKey request) result),
                            respError = None, respMeta = MetaRun (idempotencyKey request) \<rparr>)] \<rparr>
      | RunRejects message logged \<Rightarrow>
          sequential\<lparr> inFlight := [],
              dedupe := (dedupe sequential)(?key \<mapsto>
                 \<lparr> dedupeTs = now, dedupeOk = False,
                   dedupePayload = ErrorPayload (idempotencyKey request) message,
                   dedupeError = Some (ErrorShape UNAVAILABLE message) \<rparr>),
              responded := responded sequential @
                 [(f1, \<lparr> respOk = False,
                            respPayload = Some (ErrorPayload (idempotencyKey request) message),
                            respError = Some (ErrorShape UNAVAILABLE message),
                            respMeta = MetaRunError (idempotencyKey request) logged \<rparr>)] \<rparr>)"
    using agentSettled_only [OF fl] .
  have st: "settled = agentBegin env3 f3 request ?t1"
    using assms(11) by (simp add: gatewayRun_def)
  have t2: "agentCommandCalls settled = agentCommandCalls sequential \<and>
            length (responded settled) = length (responded sequential) + 2 \<and>
            last (responded settled) = (f3, final)"
  proof (cases outcome)
    case (RunResolves result)
    let ?entry = "\<lparr> dedupeTs = now, dedupeOk = True,
                   dedupePayload = OkPayload (idempotencyKey request) result,
                   dedupeError = None \<rparr> :: 'res DedupeEntry"
    have d: "dedupe ?t1 ?key = Some ?entry"
      using t1 RunResolves by simp
    show ?thesis
      using agentBegin_cached [OF e(11) d, of f3] st t1 RunResolves assms(7,12) by simp
  next
    case (RunRejects message logged)
    let ?entry = "\<lparr> dedupeTs = now, dedupeOk = False,
                   dedupePayload = ErrorPayload (idempotencyKey request) message,
                   dedupeError = Some (ErrorShape UNAVAILABLE message) \<rparr> :: 'res DedupeEntry"
    have d: "dedupe ?t1 ?key = Some ?entry"
      using t1 RunRejects by simp
    show ?thesis
      using agentBegin_cached [OF e(11) d, of f3] st t1 RunRejects assms(7,12) by simp
  qed
  from o1 o2 s1 s2 t2 show ?thesis by simp
qed

theorem overlapping_agent_submits_start_two_runs_witness:
  "agentCommandCalls
     (gatewayRun (initialGateway :: nat Gateway)
        [RequestArrives 1 sampleParams (sampleAgentEnv 10),
         RequestArrives 2 sampleParams (sampleAgentEnv 11), SaveSettles 1, SaveSettles 2])
     = [lit ''idem-1'', lit ''idem-1''] \<and>
   agentCommandCalls
     (gatewayRun (initialGateway :: nat Gateway)
        [RequestArrives 1 sampleParams (sampleAgentEnv 10), SaveSettles 1,
         RequestArrives 2 sampleParams (sampleAgentEnv 11)])
     = [lit ''idem-1'']"
proof -
  have p1: "awaitingSave (initialGateway :: nat Gateway) = []"
    and p2: "inFlight (initialGateway :: nat Gateway) = []"
    and p3: "dedupe (initialGateway :: nat Gateway) (dedupeKey sampleParams) = None"
    and p0: "agentCommandCalls (initialGateway :: nat Gateway) = []"
    by (simp_all add: initialGateway_def)
  have p4: "requestedSessionKey sampleParams = Some (lit ''main'')"
    by (simp add: requestedSessionKey_def sampleParams_def trim_def trimStart_def trimEnd_def
        isWhitespace_def lit_def)
  have p5: "\<forall>env \<in> {sampleAgentEnv 10, sampleAgentEnv 11, sampleAgentEnv 30}.
           validParams env \<and> \<not> sendPolicyDeny env \<and> storeLoaded env \<and> storePathKnown env \<and>
           saveResolves env"
    by (simp add: sampleAgentEnv_def)
  have p6: "(1::nat) \<noteq> 2" by simp
  have p7: "lit ''idem-1'' = idempotencyKey sampleParams"
    by (simp add: sampleParams_def)
  note T = overlapping_agent_submits_start_two_runs
    [where g = "initialGateway :: nat Gateway" and request = sampleParams
       and requested = "lit ''main''" and ?env1.0 = "sampleAgentEnv 10"
       and ?env2.0 = "sampleAgentEnv 11" and ?env3.0 = "sampleAgentEnv 30"
       and ?f1.0 = 1 and ?f2.0 = 2 and ?f3.0 = 3 and outcome = "RunResolves 7" and now = 20,
     OF p1 p2 p3 p4 p5 p6 p7 refl refl refl refl refl]
  from T p0 show ?thesis by simp
qed

end
